theory Spec2Isabelle
  imports Complex_Main "HOL-Library.Multiset"
begin

section \<open>Text: code points, word characters, lowercasing\<close>

text \<open>
  The tracker works on Python \<open>str\<close> values. A text is modelled as a \<open>string\<close>, each
  \<open>char\<close> standing for one code point below 256 (ASCII and Latin-1). On this range
  \<open>is_word\<close> is the class \<open>\w\<close> of Python's \<open>re\<close> for \<open>str\<close> patterns, on which
  \<open>\b\<close> is built, \<open>is_upper\<close> is the class \<open>[A-Z]\<close>, and \<open>lower_char\<close> is
  \<open>str.lower\<close> on one code point.
\<close>

definition is_upper :: "char \<Rightarrow> bool" where
  "is_upper c = (let n = (of_char c :: nat) in 65 \<le> n \<and> n \<le> 90)"

definition is_word :: "char \<Rightarrow> bool" where
  "is_word c =
     (let n = (of_char c :: nat) in
        (48 \<le> n \<and> n \<le> 57) \<or> (65 \<le> n \<and> n \<le> 90) \<or> n = 95 \<or> (97 \<le> n \<and> n \<le> 122) \<or>
        n = 170 \<or> n = 178 \<or> n = 179 \<or> n = 181 \<or> n = 185 \<or> n = 186 \<or>
        n = 188 \<or> n = 189 \<or> n = 190 \<or>
        (192 \<le> n \<and> n \<le> 214) \<or> (216 \<le> n \<and> n \<le> 246) \<or> 248 \<le> n)"

definition lower_char :: "char \<Rightarrow> char" where
  "lower_char c =
     (let n = (of_char c :: nat) in
        if (65 \<le> n \<and> n \<le> 90) \<or> (192 \<le> n \<and> n \<le> 222 \<and> n \<noteq> 215)
        then char_of (n + 32) else c)"

definition lower :: "string \<Rightarrow> string" where
  "lower s = map lower_char s"

text \<open>
  \<open>is_word_opt\<close> reads the character at a position that may lie outside the text
  (\<open>None\<close>): there is no word character before the start or after the end.
  \<open>boundary p n\<close> is \<open>\b\<close> between the previous character \<open>p\<close> and the next one \<open>n\<close>.
\<close>

definition is_word_opt :: "char option \<Rightarrow> bool" where
  "is_word_opt p = (case p of None \<Rightarrow> False | Some c \<Rightarrow> is_word c)"

definition boundary :: "char option \<Rightarrow> char option \<Rightarrow> bool" where
  "boundary p n = (is_word_opt p \<noteq> is_word_opt n)"

definition first_opt :: "string \<Rightarrow> char option" where
  "first_opt s = (case s of [] \<Rightarrow> None | c # _ \<Rightarrow> Some c)"

definition last_opt :: "char option \<Rightarrow> string \<Rightarrow> char option" where
  "last_opt p s = (if s = [] then p else Some (last s))"

section \<open>The three patterns of \<open>extract_coins\<close>\<close>

subsection \<open>\<open>re.sub(r'<[^>]+>', ' ', text)\<close>\<close>

text \<open>
  \<open>tag_end cs\<close> matches \<open>[^>]+>\<close> at the front of \<open>cs\<close>, the text after a \<open><\<close>: the
  greedy class takes every character up to the next \<open>>\<close>, at least one, and the \<open>>\<close>
  must follow; the result is the text after the tag. A shorter run of the class never
  ends before a \<open>>\<close>, so backtracking adds no match.
\<close>

definition tag_end :: "string \<Rightarrow> string option" where
  "tag_end cs =
     (let body = takeWhile (\<lambda>c. c \<noteq> CHR ''>'') cs;
          rest = dropWhile (\<lambda>c. c \<noteq> CHR ''>'') cs
      in if body \<noteq> [] \<and> rest \<noteq> [] then Some (tl rest) else None)"

lemma tag_end_shorter: "tag_end cs = Some rest \<Longrightarrow> length rest < Suc (length cs)"
proof -
  assume a: "tag_end cs = Some rest"
  have "length (dropWhile (\<lambda>c. c \<noteq> CHR ''>'') cs) \<le> length cs"
    by (rule length_dropWhile_le)
  with a show ?thesis
    by (auto simp: tag_end_def Let_def split: if_splits)
qed

function sub_tags :: "string \<Rightarrow> string" where
  "sub_tags [] = []"
| "sub_tags (c # cs) =
     (if c = CHR ''<'' then
        (case tag_end cs of
           Some rest \<Rightarrow> CHR '' '' # sub_tags rest
         | None \<Rightarrow> c # sub_tags cs)
      else c # sub_tags cs)"
  by pat_completeness auto
termination
  by (relation "measure length") (auto dest: tag_end_shorter)

subsection \<open>\<open>re.search(r'\b' + re.escape(alias) + r'\b', lower)\<close>\<close>

text \<open>
  \<open>re.escape\<close> makes the alias match literally. \<open>match_alias p a s\<close> tries the pattern at
  the front of \<open>s\<close>, where \<open>p\<close> is the character before it; \<open>search_alias\<close> tries every
  position from left to right, the end of the text included.
\<close>

definition match_alias :: "char option \<Rightarrow> string \<Rightarrow> string \<Rightarrow> bool" where
  "match_alias p a s =
     (boundary p (first_opt s) \<and> take (length a) s = a \<and>
      boundary (last_opt p a) (first_opt (drop (length a) s)))"

fun search_alias :: "char option \<Rightarrow> string \<Rightarrow> string \<Rightarrow> bool" where
  "search_alias p a [] = match_alias p a []"
| "search_alias p a (c # cs) = (match_alias p a (c # cs) \<or> search_alias (Some c) a cs)"

subsection \<open>\<open>re.findall(r'\b[A-Z]{2,8}\b', clean)\<close>\<close>

text \<open>
  \<open>match_symbol p s\<close> tries the pattern at the front of \<open>s\<close> and returns the length of
  the match: after \<open>\b\<close>, the greedy \<open>{2,8}\<close> takes up to 8 capitals and gives them
  back one at a time, down to 2, until \<open>\b\<close> holds behind them. \<open>findall_symbols\<close>
  collects the matches from left to right, going on behind each match.
\<close>

definition boundary_at :: "string \<Rightarrow> nat \<Rightarrow> bool" where
  "boundary_at s m = boundary (Some (s ! (m - 1))) (first_opt (drop m s))"

definition match_symbol :: "char option \<Rightarrow> string \<Rightarrow> nat option" where
  "match_symbol p s =
     (if boundary p (first_opt s) then
        List.find (boundary_at s) (rev [2 ..< Suc (min 8 (length (takeWhile is_upper s)))])
      else None)"

lemma find_Some_mem: "List.find P xs = Some x \<Longrightarrow> x \<in> set xs"
  by (induction xs) (auto split: if_splits)

lemma find_Some_holds: "List.find P xs = Some x \<Longrightarrow> P x"
  by (induction xs) (auto split: if_splits)

lemma match_symbol_range:
  "match_symbol p s = Some m \<Longrightarrow> 2 \<le> m \<and> m \<le> length s"
proof -
  assume "match_symbol p s = Some m"
  then have "List.find (boundary_at s) (rev [2 ..< Suc (min 8 (length (takeWhile is_upper s)))]) = Some m"
    by (simp add: match_symbol_def split: if_splits)
  then have "m \<in> set (rev [2 ..< Suc (min 8 (length (takeWhile is_upper s)))])"
    by (rule find_Some_mem)
  moreover have "length (takeWhile is_upper s) \<le> length s"
    by (rule length_takeWhile_le)
  ultimately show ?thesis by auto
qed

function findall_symbols :: "char option \<Rightarrow> string \<Rightarrow> string list" where
  "findall_symbols p [] = []"
| "findall_symbols p (c # cs) =
     (case match_symbol p (c # cs) of
        Some m \<Rightarrow> take m (c # cs) # findall_symbols (Some ((c # cs) ! (m - 1))) (drop m (c # cs))
      | None \<Rightarrow> findall_symbols (Some c) cs)"
  by pat_completeness auto
termination
  by (relation "measure (\<lambda>(p, s). length s)") (auto dest: match_symbol_range)


section \<open>The coin table and the alias table\<close>

text \<open>
  \<open>COINS\<close> and \<open>ALIASES\<close> are the two dictionaries of the source, as association
  lists in the order of the source (the order in which \<open>ALIASES.items()\<close> iterates).
\<close>

definition COINS :: "(string \<times> string) list" where
  "COINS =
     [
      (''BTC'', ''Bitcoin''), (''ETH'', ''Ethereum''), (''SOL'', ''Solana''),
      (''XRP'', ''Ripple''), (''BNB'', ''BNB''), (''ADA'', ''Cardano''),
      (''DOGE'', ''Dogecoin''), (''AVAX'', ''Avalanche''), (''DOT'', ''Polkadot''),
      (''MATIC'', ''Polygon''), (''LINK'', ''Chainlink''), (''UNI'', ''Uniswap''),
      (''ATOM'', ''Cosmos''), (''LTC'', ''Litecoin''), (''BCH'', ''Bitcoin Cash''),
      (''NEAR'', ''NEAR Protocol''), (''ICP'', ''Internet Computer''), (''VET'', ''VeChain''),
      (''FIL'', ''Filecoin''), (''HBAR'', ''Hedera''), (''ALGO'', ''Algorand''),
      (''XLM'', ''Stellar''), (''ETC'', ''Ethereum Classic''), (''SAND'', ''The Sandbox''),
      (''MANA'', ''Decentraland''), (''AXS'', ''Axie Infinity''), (''THETA'', ''Theta''),
      (''EOS'', ''EOS''), (''XTZ'', ''Tezos''), (''FTM'', ''Fantom''),
      (''CAKE'', ''PancakeSwap''), (''CRO'', ''Cronos''), (''GRT'', ''The Graph''),
      (''ZEC'', ''Zcash''), (''DASH'', ''Dash''), (''XMR'', ''Monero''),
      (''SHIB'', ''Shiba Inu''), (''PEPE'', ''Pepe''), (''WIF'', ''dogwifhat''),
      (''BONK'', ''Bonk''), (''FLOKI'', ''Floki''), (''TRUMP'', ''TRUMP''),
      (''TRX'', ''TRON''), (''SUI'', ''Sui''), (''SEI'', ''Sei''),
      (''INJ'', ''Injective''), (''ARB'', ''Arbitrum''), (''OP'', ''Optimism''),
      (''TON'', ''Toncoin''), (''APT'', ''Aptos''), (''STX'', ''Stacks''),
      (''AAVE'', ''Aave''), (''CRV'', ''Curve''), (''MKR'', ''Maker''),
      (''SNX'', ''Synthetix''), (''COMP'', ''Compound''), (''YFI'', ''Yearn Finance''),
      (''SUSHI'', ''SushiSwap''), (''WLD'', ''Worldcoin''), (''FET'', ''Fetch.ai''),
      (''RENDER'', ''Render''), (''TAO'', ''Bittensor''), (''OCEAN'', ''Ocean Protocol''),
      (''JUP'', ''Jupiter''), (''RAY'', ''Raydium''), (''ORCA'', ''Orca''),
      (''BOME'', ''Book of Meme''), (''POPCAT'', ''Popcat''), (''MEW'', ''Cat in a Dog World''),
      (''PENDLE'', ''Pendle''), (''LDO'', ''Lido DAO''), (''RPL'', ''Rocket Pool''),
      (''MOVE'', ''Movement''), (''EIGEN'', ''EigenLayer''), (''PYTH'', ''Pyth Network''),
      (''JTO'', ''Jito''), (''NOT'', ''Notcoin''), (''BLUR'', ''Blur''),
      (''IMX'', ''ImmutableX'')
     ]"

definition ALIASES :: "(string \<times> string) list" where
  "ALIASES =
     [
      (''bitcoin'', ''BTC''), (''satoshi'', ''BTC''), (''sats'', ''BTC''),
      (''ethereum'', ''ETH''), (''ether'', ''ETH''), (''vitalik'', ''ETH''),
      (''solana'', ''SOL''), (''ripple'', ''XRP''), (''dogecoin'', ''DOGE''),
      (''shiba'', ''SHIB''), (''shib'', ''SHIB''), (''pepe'', ''PEPE''),
      (''cardano'', ''ADA''), (''polygon'', ''MATIC''), (''avalanche'', ''AVAX''),
      (''chainlink'', ''LINK''), (''litecoin'', ''LTC''), (''monero'', ''XMR''),
      (''tron'', ''TRX''), (''toncoin'', ''TON''), (''trump'', ''TRUMP''),
      (''dogwifhat'', ''WIF''), (''bonk'', ''BONK''), (''floki'', ''FLOKI''),
      (''render'', ''RENDER''), (''bittensor'', ''TAO''), (''worldcoin'', ''WLD''),
      (''arbitrum'', ''ARB''), (''optimism'', ''OP''), (''injective'', ''INJ''),
      (''jupiter'', ''JUP'')
     ]"

section \<open>\<open>extract_coins\<close>\<close>

text \<open>
  The set \<open>found\<close> is a list without duplicates, \<open>set_add\<close> being \<open>found.add\<close>.
  Python leaves the order of \<open>list(found)\<close> open; the model lists the symbols in the
  order in which they were added, and nothing below depends on that order. The argument
  is \<open>None\<close> for Python's \<open>None\<close>, which \<open>not text\<close> treats like the empty text.
\<close>

definition set_add :: "string list \<Rightarrow> string \<Rightarrow> string list" where
  "set_add found symbol = (if symbol \<in> set found then found else found @ [symbol])"

definition extract_coins :: "string option \<Rightarrow> string list" where
  "extract_coins text =
     (case text of
        None \<Rightarrow> []
      | Some t \<Rightarrow>
          if t = [] then []
          else
            (let clean = sub_tags t;
                 low = lower clean;
                 found = fold (\<lambda>(alias, symbol) found.
                            if search_alias None alias low then set_add found symbol else found)
                          ALIASES [];
                 found = fold (\<lambda>word found.
                            if word \<in> set (map fst COINS) then set_add found word else found)
                          (findall_symbols None clean) found
             in found))"

section \<open>\<open>analyze\<close>\<close>

text \<open>
  A thread record is the JSON object of the catalog: \<open>t_no\<close>, \<open>t_sub\<close>, \<open>t_com\<close> and
  \<open>t_replies\<close> are \<open>t.get("no")\<close>, \<open>t.get("sub")\<close>, \<open>t.get("com")\<close> and
  \<open>t.get("replies")\<close>, \<open>None\<close> when the key is missing. \<open>coin_stat\<close> is the
  dictionary \<open>{"count": .., "threads": ..}\<close>, and \<open>coin_counts\<close> the dictionary from
  symbols to it, in insertion order. \<open>hot_thread\<close> is the dictionary appended to
  \<open>hot_threads\<close>.
\<close>

record thread =
  t_no :: "int option"
  t_sub :: "string option"
  t_com :: "string option"
  t_replies :: "int option"

record coin_stat =
  st_count :: int
  st_threads :: "int option list"

type_synonym coin_counts = "(string \<times> coin_stat) list"

record hot_thread =
  ht_no :: "int option"
  ht_sub :: string
  ht_coins :: "string list"
  ht_replies :: int

text \<open>
  \<open>py_or x y\<close> is Python's \<open>x or y\<close> on an optional text: \<open>None\<close> and the empty
  text are false. \<open>thread_text\<close> is the argument \<open>analyze\<close> gives to
  \<open>extract_coins\<close>, \<open>display_text\<close> the value it stores under \<open>"sub"\<close>.
\<close>

definition py_or :: "string option \<Rightarrow> string \<Rightarrow> string" where
  "py_or x y = (case x of None \<Rightarrow> y | Some s \<Rightarrow> if s \<noteq> [] then s else y)"

definition thread_text :: "thread \<Rightarrow> string" where
  "thread_text t = py_or (t_sub t) [] @ '' '' @ py_or (t_com t) []"

definition display_text :: "thread \<Rightarrow> string" where
  "display_text t = py_or (t_sub t) (take 80 (py_or (t_com t) []))"

text \<open>
  \<open>bump cc symbol no\<close> is \<open>coin_counts[sym]["count"] += 1\<close> followed by
  \<open>coin_counts[sym]["threads"].append(no)\<close>: the \<open>defaultdict\<close> adds a missing symbol
  at the end, with count 0 and no threads, before the two updates.
\<close>

fun bump :: "coin_counts \<Rightarrow> string \<Rightarrow> int option \<Rightarrow> coin_counts" where
  "bump [] symbol n = [(symbol, \<lparr>st_count = 0 + 1, st_threads = [] @ [n]\<rparr>)]"
| "bump ((k, v) # kvs) symbol n =
     (if k = symbol
      then (k, \<lparr>st_count = st_count v + 1, st_threads = st_threads v @ [n]\<rparr>) # kvs
      else (k, v) # bump kvs symbol n)"

definition replies_of :: "thread \<Rightarrow> int" where
  "replies_of t = (case t_replies t of None \<Rightarrow> 0 | Some r \<Rightarrow> r)"

definition hot_of :: "thread \<Rightarrow> hot_thread" where
  "hot_of t =
     \<lparr>ht_no = t_no t, ht_sub = display_text t,
      ht_coins = extract_coins (Some (thread_text t)), ht_replies = replies_of t\<rparr>"

definition analyze_step :: "thread \<Rightarrow> coin_counts \<times> hot_thread list \<Rightarrow> coin_counts \<times> hot_thread list" where
  "analyze_step t st =
     (let coin_counts = fst st;
          hot_threads = snd st;
          coins = extract_coins (Some (thread_text t));
          coin_counts = fold (\<lambda>symbol cc. bump cc symbol (t_no t)) coins coin_counts;
          hot_threads =
            (if coins \<noteq> [] then
               hot_threads @
                 [\<lparr>ht_no = t_no t, ht_sub = display_text t,
                   ht_coins = coins, ht_replies = replies_of t\<rparr>]
             else hot_threads)
      in (coin_counts, hot_threads))"

text \<open>
  \<open>list.sort(key=.., reverse=True)\<close> is stable: it orders by decreasing key and keeps
  elements with equal keys in their order. On integer keys this is the stable
  \<open>sort_key\<close> on the negated key.
\<close>

definition analyze :: "thread list \<Rightarrow> coin_counts \<times> hot_thread list" where
  "analyze threads =
     (let st = fold analyze_step threads ([], []);
          hot_threads = sort_key (\<lambda>x. - ht_replies x) (snd st)
      in (fst st, take 10 hot_threads))"


section \<open>\<open>generate_html\<close>\<close>

text \<open>
  The report is modelled by the values \<open>generate_html\<close> computes and puts into the
  page, not by the markup around them: a \<open>row\<close> of the leaderboard, a \<open>heat_row\<close>
  of the heat map, a \<open>thread_item\<close> of the thread list and the four figures of the
  header. Python's \<open>/\<close> on integers is a floating-point division; the model divides in
  the rationals, so the derived values are the exact ones. A division by zero raises.
\<close>

datatype exn =
  ConnectionError string | Timeout string | HTTPError nat | JSONDecodeError string
  | RequestException string | ValueError string
  | ZeroDivisionError | OSError | OtherError string

record row =
  r_index :: nat
  r_sym :: string
  r_full_name :: string
  r_count :: int
  r_pct :: rat
  r_bar_w :: rat

record heat_row =
  hm_sym :: string
  hm_w :: rat
  hm_color :: nat
  hm_count :: int

record thread_item =
  th_tags :: "string list"
  th_sub :: string
  th_no :: "int option"
  th_replies :: int

record report =
  rows_html :: "row list"
  heatmap_html :: "heat_row list"
  threads_html :: "thread_item list"
  top_sym :: "string option"
  top_cnt :: int
  n_coins :: nat
  total_shown :: int
  thread_count :: nat

definition truediv :: "int \<Rightarrow> int \<Rightarrow> exn + rat" where
  "truediv a b = (if b = 0 then Inl ZeroDivisionError else Inr (of_int a / of_int b))"

definition and_then :: "exn + 'a \<Rightarrow> ('a \<Rightarrow> exn + 'b) \<Rightarrow> exn + 'b" where
  "and_then r f = (case r of Inl e \<Rightarrow> Inl e | Inr x \<Rightarrow> f x)"

definition coin_row :: "int \<Rightarrow> int \<Rightarrow> nat \<Rightarrow> string \<times> coin_stat \<Rightarrow> exn + row" where
  "coin_row total_mentions max_count i x =
     (let symbol = fst x; data = snd x; count = st_count data in
      and_then (if total_mentions \<noteq> 0
                then and_then (truediv count total_mentions) (\<lambda>q. Inr (q * 100))
                else Inr 0) (\<lambda>pct.
      and_then (truediv count max_count) (\<lambda>q.
      Inr \<lparr>r_index = i, r_sym = symbol,
           r_full_name = (case map_of COINS symbol of None \<Rightarrow> [] | Some n \<Rightarrow> n),
           r_count = count, r_pct = pct, r_bar_w = q * 100\<rparr>)))"

fun rows_loop :: "int \<Rightarrow> int \<Rightarrow> nat \<Rightarrow> coin_counts \<Rightarrow> exn + row list" where
  "rows_loop total_mentions max_count i [] = Inr []"
| "rows_loop total_mentions max_count i (x # xs) =
     and_then (coin_row total_mentions max_count i x) (\<lambda>r.
     and_then (rows_loop total_mentions max_count (Suc i) xs) (\<lambda>rs. Inr (r # rs)))"

definition heat_row_of :: "int \<Rightarrow> nat \<Rightarrow> string \<times> coin_stat \<Rightarrow> exn + heat_row" where
  "heat_row_of hm_max i x =
     and_then (truediv (st_count (snd x)) hm_max) (\<lambda>q.
     Inr \<lparr>hm_sym = fst x, hm_w = q * 100, hm_color = min i (10 - 1),
          hm_count = st_count (snd x)\<rparr>)"

fun heat_loop :: "int \<Rightarrow> nat \<Rightarrow> coin_counts \<Rightarrow> exn + heat_row list" where
  "heat_loop hm_max i [] = Inr []"
| "heat_loop hm_max i (x # xs) =
     and_then (heat_row_of hm_max i x) (\<lambda>r.
     and_then (heat_loop hm_max (Suc i) xs) (\<lambda>rs. Inr (r # rs)))"

definition thread_item_of :: "hot_thread \<Rightarrow> thread_item" where
  "thread_item_of t =
     \<lparr>th_tags = take 4 (ht_coins t), th_sub = take 70 (ht_sub t),
      th_no = ht_no t, th_replies = ht_replies t\<rparr>"

definition generate_html :: "coin_counts \<Rightarrow> hot_thread list \<Rightarrow> nat \<Rightarrow> exn + report" where
  "generate_html coin_counts hot_threads n =
     (let sorted_coins = sort_key (\<lambda>x. - st_count (snd x)) coin_counts;
          total_mentions = sum_list (map (\<lambda>x. st_count (snd x)) coin_counts);
          max_count = (case sorted_coins of [] \<Rightarrow> 1 | x # _ \<Rightarrow> st_count (snd x));
          top10 = take 10 sorted_coins
      in and_then (rows_loop total_mentions max_count 0 sorted_coins) (\<lambda>rows.
         let hm_max = (case top10 of [] \<Rightarrow> 1 | x # _ \<Rightarrow> st_count (snd x)) in
         and_then (heat_loop hm_max 0 top10) (\<lambda>heat.
         Inr \<lparr>rows_html = rows, heatmap_html = heat,
              threads_html = map thread_item_of hot_threads,
              top_sym = (case sorted_coins of [] \<Rightarrow> None | x # _ \<Rightarrow> Some (fst x)),
              top_cnt = (case sorted_coins of [] \<Rightarrow> 0 | x # _ \<Rightarrow> st_count (snd x)),
              n_coins = length coin_counts, total_shown = total_mentions,
              thread_count = n\<rparr>)))"

section \<open>\<open>fetch_catalog\<close> and \<open>main\<close>\<close>

text \<open>
  The outside world of a run is the network and whether \<open>index.html\<close> can be opened
  for writing. The network gives, for every \<open>n\<close>, the outcome of the request number
  \<open>n\<close> of the run, counted from 0: \<open>requests.get\<close> raises an exception, or there is a
  response, with its status and the result of \<open>resp.json()\<close>, which is the exception it
  raises or the list of pages, each page with the value of \<open>page.get("threads")\<close>.
  \<open>requests_get\<close> is \<open>requests.get\<close>: it takes the number of requests sent so far and
  returns the outcome of the next one and the new number. \<open>fetch_catalog\<close> and \<open>main\<close>
  pass that number on, and a run records how many requests it sent.

  \<open>is_request_exception\<close> tells which exceptions the clause
  \<open>except requests.exceptions.RequestException\<close> catches: \<open>ConnectionError\<close>,
  \<open>Timeout\<close>, the \<open>HTTPError\<close> of \<open>raise_for_status\<close>, the \<open>JSONDecodeError\<close> that
  \<open>resp.json()\<close> raises in requests 2.27 and later, and \<open>RequestException\<close> for any
  other exception of that class. \<open>ValueError\<close> is what \<open>resp.json()\<close> raises in older
  versions. What the run prints is a list of messages.
\<close>

datatype http_outcome =
  Raises exn
  | Response nat "exn + thread list option list"

record world =
  http :: "nat \<Rightarrow> http_outcome"
  writable :: bool

datatype message =
  Banner | Fetching | Fetched nat | Analyzing | NoCoins
  | Summary nat int | TableRow nat string string int nat
  | ReportWritten string | NetworkError exn | GeneralError exn

datatype exit_status = Returned | Raised exn

record run =
  printed :: "message list"
  requests :: nat
  written :: "(string \<times> report) option"
  status :: exit_status

fun is_request_exception :: "exn \<Rightarrow> bool" where
  "is_request_exception (ConnectionError _) = True"
| "is_request_exception (Timeout _) = True"
| "is_request_exception (HTTPError _) = True"
| "is_request_exception (JSONDecodeError _) = True"
| "is_request_exception (RequestException _) = True"
| "is_request_exception _ = False"

text \<open>
  \<open>first_then h h'\<close> is the network on which the first request of the run has the
  outcome \<open>h\<close> and every later one the outcome \<open>h'\<close>.
\<close>

definition first_then :: "http_outcome \<Rightarrow> http_outcome \<Rightarrow> nat \<Rightarrow> http_outcome" where
  "first_then h h' n = (if n = 0 then h else h')"

definition requests_get :: "(nat \<Rightarrow> http_outcome) \<Rightarrow> nat \<Rightarrow> http_outcome \<times> nat" where
  "requests_get net sent = (net sent, Suc sent)"

definition fetch_catalog ::
  "(nat \<Rightarrow> http_outcome) \<Rightarrow> nat \<Rightarrow> (message list \<times> (exn + thread list)) \<times> nat" where
  "fetch_catalog net sent =
     (let resp = fst (requests_get net sent);
          sent = snd (requests_get net sent)
      in (case resp of
            Raises e \<Rightarrow> ([Fetching], Inl e)
          | Response code body \<Rightarrow>
              if 400 \<le> code \<and> code < 600 then ([Fetching], Inl (HTTPError code))
              else
                (case body of
                   Inl e \<Rightarrow> ([Fetching], Inl e)
                 | Inr catalog \<Rightarrow>
                     (let threads = concat (map (\<lambda>page. case page of None \<Rightarrow> [] | Some ts \<Rightarrow> ts) catalog)
                      in ([Fetching, Fetched (length threads)], Inr threads))),
          sent))"

definition except :: "message list \<Rightarrow> nat \<Rightarrow> exn \<Rightarrow> run" where
  "except out sent e =
     (if is_request_exception e
      then \<lparr>printed = out @ [NetworkError e], requests = sent, written = None, status = Returned\<rparr>
      else \<lparr>printed = out @ [GeneralError e], requests = sent, written = None, status = Raised e\<rparr>)"

definition table_rows :: "coin_counts \<Rightarrow> message list" where
  "table_rows sorted_coins =
     map (\<lambda>(i, x). TableRow i (fst x)
                     (case map_of COINS (fst x) of None \<Rightarrow> [] | Some n \<Rightarrow> n)
                     (st_count (snd x)) (nat (min (st_count (snd x)) 30)))
         (zip [1 ..< Suc (length (take 20 sorted_coins))] (take 20 sorted_coins))"

definition main :: "world \<Rightarrow> run" where
  "main w =
     (let fetched = fst (fetch_catalog (http w) 0);
          sent = snd (fetch_catalog (http w) 0);
          out = [Banner] @ fst fetched
      in case snd fetched of
        Inl e \<Rightarrow> except out sent e
      | Inr threads \<Rightarrow>
          (let out = out @ [Analyzing];
               coin_counts = fst (analyze threads);
               hot_threads = snd (analyze threads)
           in if coin_counts = [] then
                \<lparr>printed = out @ [NoCoins], requests = sent, written = None, status = Returned\<rparr>
              else
                (let sorted_coins = sort_key (\<lambda>x. - st_count (snd x)) coin_counts;
                     out = out @ [Summary (length coin_counts)
                                    (sum_list (map (\<lambda>x. st_count (snd x)) coin_counts))]
                               @ table_rows sorted_coins
                 in case generate_html coin_counts hot_threads (length threads) of
                      Inl e \<Rightarrow> except out sent e
                    | Inr html \<Rightarrow>
                        if writable w then
                          \<lparr>printed = out @ [ReportWritten ''index.html''], requests = sent,
                           written = Some (''index.html'', html), status = Returned\<rparr>
                        else except out sent OSError)))"

section \<open>Notions used to state the properties\<close>

text \<open>
  \<open>mentions t symbol\<close>: the text of thread \<open>t\<close>, as \<open>analyze\<close> builds it, mentions
  \<open>symbol\<close>. \<open>tally t\<close> is the inner loop of \<open>analyze\<close> over the symbols of one thread.
\<close>

definition mentions :: "thread \<Rightarrow> string \<Rightarrow> bool" where
  "mentions t symbol = (symbol \<in> set (extract_coins (Some (thread_text t))))"

definition tally :: "thread \<Rightarrow> coin_counts \<Rightarrow> coin_counts" where
  "tally t cc = fold (\<lambda>symbol cc. bump cc symbol (t_no t)) (extract_coins (Some (thread_text t))) cc"

text \<open>
  \<open>counts\<close> lists the counts of a mapping, \<open>by_count\<close> is \<open>sorted_coins\<close> and
  \<open>max_count_of\<close> is \<open>max_count\<close> of \<open>generate_html\<close>; \<open>row_of\<close> and \<open>heat_of\<close> are
  the values of one row of the leaderboard and of the heat map when no division fails.
\<close>

definition row_of :: "int \<Rightarrow> int \<Rightarrow> nat \<Rightarrow> string \<times> coin_stat \<Rightarrow> row" where
  "row_of total_mentions max_count i x =
     \<lparr>r_index = i, r_sym = fst x,
      r_full_name = (case map_of COINS (fst x) of None \<Rightarrow> [] | Some n \<Rightarrow> n),
      r_count = st_count (snd x),
      r_pct = (if total_mentions = 0 then 0
               else of_int (st_count (snd x)) / of_int total_mentions * 100),
      r_bar_w = of_int (st_count (snd x)) / of_int max_count * 100\<rparr>"

definition counts :: "coin_counts \<Rightarrow> int list" where
  "counts cc = map (\<lambda>x. st_count (snd x)) cc"

definition by_count :: "coin_counts \<Rightarrow> coin_counts" where
  "by_count cc = sort_key (\<lambda>x. - st_count (snd x)) cc"

definition heat_of :: "int \<Rightarrow> nat \<Rightarrow> string \<times> coin_stat \<Rightarrow> heat_row" where
  "heat_of hm_max i x =
     \<lparr>hm_sym = fst x, hm_w = of_int (st_count (snd x)) / of_int hm_max * 100,
      hm_color = min i 9, hm_count = st_count (snd x)\<rparr>"

definition max_count_of :: "coin_counts \<Rightarrow> int" where
  "max_count_of cc = (case by_count cc of [] \<Rightarrow> 1 | x # _ \<Rightarrow> st_count (snd x))"

text \<open>
  \<open>occurs_as_word p w s\<close>: the word \<open>w\<close> occurs in the text \<open>s\<close> with no word character
  directly before it and none directly after it, where \<open>p\<close> is the character before
  \<open>s\<close>, if any. \<open>occurs_at_front\<close> is such an occurrence at the very start of \<open>s\<close>.
  \<open>symbol_run w\<close>: \<open>w\<close> consists of 2 to 8 capital ASCII letters.
\<close>

definition occurs_as_word :: "char option \<Rightarrow> string \<Rightarrow> string \<Rightarrow> bool" where
  "occurs_as_word p w s =
     (\<exists>pre post. s = pre @ w @ post \<and>
        \<not> is_word_opt (last_opt p pre) \<and> \<not> is_word_opt (first_opt post))"

definition occurs_at_front :: "char option \<Rightarrow> string \<Rightarrow> string \<Rightarrow> bool" where
  "occurs_at_front p w s =
     (\<exists>post. s = w @ post \<and> \<not> is_word_opt p \<and> \<not> is_word_opt (first_opt post))"

definition symbol_run :: "string \<Rightarrow> bool" where
  "symbol_run w = (2 \<le> length w \<and> length w \<le> 8 \<and> (\<forall>c \<in> set w. is_upper c))"

section \<open>Extraction and aggregation: basic facts\<close>

lemma set_set_add: "set (set_add found s) = insert s (set found)"
  by (auto simp: set_add_def)

lemma distinct_set_add: "distinct found \<Longrightarrow> distinct (set_add found s)"
  by (simp add: set_add_def)

lemma distinct_fold_alias:
  "distinct found \<Longrightarrow>
   distinct (fold (\<lambda>(alias, symbol) found. if P alias then set_add found symbol else found) xs found)"
  by (induction xs arbitrary: found) (auto simp: distinct_set_add)

lemma distinct_fold_word:
  "distinct found \<Longrightarrow>
   distinct (fold (\<lambda>word found. if Q word then set_add found word else found) ws found)"
  by (induction ws arbitrary: found) (auto simp: distinct_set_add)

lemma set_fold_alias:
  "set (fold (\<lambda>(alias, symbol) found. if P alias then set_add found symbol else found) xs found)
   = set found \<union> {symbol. \<exists>alias. (alias, symbol) \<in> set xs \<and> P alias}"
  by (induction xs arbitrary: found) (auto simp: set_set_add split: if_splits)

lemma set_fold_word:
  "set (fold (\<lambda>word found. if Q word then set_add found word else found) ws found)
   = set found \<union> {w \<in> set ws. Q w}"
  by (induction ws arbitrary: found) (auto simp: set_set_add split: if_splits)

lemma distinct_extract_coins: "distinct (extract_coins x)"
  by (auto simp: extract_coins_def Let_def distinct_fold_alias distinct_fold_word split: option.splits)

lemma set_extract_coins:
  "t \<noteq> [] \<Longrightarrow> set (extract_coins (Some t)) =
     {symbol. \<exists>alias. (alias, symbol) \<in> set ALIASES \<and> search_alias None alias (lower (sub_tags t))}
     \<union> {w \<in> set (findall_symbols None (sub_tags t)). w \<in> set (map fst COINS)}"
  by (simp add: extract_coins_def Let_def set_fold_alias set_fold_word)

lemma aliases_in_coins: "snd ` set ALIASES \<subseteq> fst ` set COINS"
  by (simp add: ALIASES_def COINS_def)


lemma analyze_step_eq:
  "analyze_step t (cc, hot) =
     (tally t cc,
      if extract_coins (Some (thread_text t)) \<noteq> [] then hot @ [hot_of t] else hot)"
  by (simp add: analyze_step_def tally_def hot_of_def Let_def)

lemma fold_analyze_step:
  "fold analyze_step threads (cc, hot) =
     (fold tally threads cc,
      hot @ map hot_of (filter (\<lambda>t. extract_coins (Some (thread_text t)) \<noteq> []) threads))"
  by (induction threads arbitrary: cc hot) (simp_all add: analyze_step_eq)

lemma map_of_bump:
  "map_of (bump cc s n) s' =
     (if s' = s then
        Some \<lparr>st_count = (case map_of cc s of None \<Rightarrow> 0 | Some v \<Rightarrow> st_count v) + 1,
              st_threads = (case map_of cc s of None \<Rightarrow> [] | Some v \<Rightarrow> st_threads v) @ [n]\<rparr>
      else map_of cc s')"
  by (induction cc s n rule: bump.induct) auto

lemma keys_bump: "fst ` set (bump cc s n) = insert s (fst ` set cc)"
  by (induction cc s n rule: bump.induct) auto

lemma distinct_bump: "distinct (map fst cc) \<Longrightarrow> distinct (map fst (bump cc s n))"
proof (induction cc s n rule: bump.induct)
  case (1 symbol n)
  then show ?case by simp
next
  case (2 k v kvs symbol n)
  have "fst ` set (bump kvs symbol n) = insert symbol (fst ` set kvs)"
    by (rule keys_bump)
  with 2 show ?case by auto
qed

lemma map_of_fold_bump:
  "distinct coins \<Longrightarrow>
   map_of (fold (\<lambda>symbol cc. bump cc symbol n) coins cc) s =
     (if s \<in> set coins then
        Some \<lparr>st_count = (case map_of cc s of None \<Rightarrow> 0 | Some v \<Rightarrow> st_count v) + 1,
              st_threads = (case map_of cc s of None \<Rightarrow> [] | Some v \<Rightarrow> st_threads v) @ [n]\<rparr>
      else map_of cc s)"
  by (induction coins arbitrary: cc) (auto simp: map_of_bump)

lemma distinct_fold_bump:
  "distinct (map fst cc) \<Longrightarrow> distinct (map fst (fold (\<lambda>symbol cc. bump cc symbol n) coins cc))"
  by (induction coins arbitrary: cc) (auto simp: distinct_bump)

lemma keys_fold_bump:
  "fst ` set (fold (\<lambda>symbol cc. bump cc symbol n) coins cc) = set coins \<union> fst ` set cc"
  by (induction coins arbitrary: cc) (simp_all add: keys_bump)

lemma map_of_tally:
  "map_of (tally t cc) s =
     (if mentions t s then
        Some \<lparr>st_count = (case map_of cc s of None \<Rightarrow> 0 | Some v \<Rightarrow> st_count v) + 1,
              st_threads = (case map_of cc s of None \<Rightarrow> [] | Some v \<Rightarrow> st_threads v) @ [t_no t]\<rparr>
      else map_of cc s)"
  unfolding tally_def mentions_def
  by (rule map_of_fold_bump) (rule distinct_extract_coins)

lemma map_of_fold_tally:
  "map_of (fold tally threads cc) s =
     (let ts = filter (\<lambda>t. mentions t s) threads in
      if ts = [] then map_of cc s
      else Some \<lparr>st_count = (case map_of cc s of None \<Rightarrow> 0 | Some v \<Rightarrow> st_count v) + int (length ts),
                 st_threads = (case map_of cc s of None \<Rightarrow> [] | Some v \<Rightarrow> st_threads v) @ map t_no ts\<rparr>)"
proof (induction threads arbitrary: cc)
  case Nil
  show ?case by simp
next
  case (Cons t threads)
  show ?case
    by (simp add: Cons.IH map_of_tally Let_def)
qed

lemma distinct_fold_tally:
  "distinct (map fst cc) \<Longrightarrow> distinct (map fst (fold tally threads cc))"
  by (induction threads arbitrary: cc) (auto simp: tally_def distinct_fold_bump)

lemma map_of_analyze:
  "map_of (fst (analyze threads)) symbol =
     (let ts = filter (\<lambda>t. mentions t symbol) threads in
      if ts = [] then None
      else Some \<lparr>st_count = int (length ts), st_threads = map t_no ts\<rparr>)"
  by (simp add: analyze_def Let_def fold_analyze_step map_of_fold_tally)

lemma distinct_keys_analyze: "distinct (map fst (fst (analyze threads)))"
  by (simp add: analyze_def Let_def fold_analyze_step distinct_fold_tally)

lemma keys_fold_tally:
  "fst ` set (fold tally threads cc) =
     fst ` set cc \<union> (\<Union>t \<in> set threads. set (extract_coins (Some (thread_text t))))"
  by (induction threads arbitrary: cc) (auto simp: tally_def keys_fold_bump)

lemma alias_symbol_in_COINS:
  assumes "(alias, symbol) \<in> set ALIASES"
  shows "symbol \<in> fst ` set COINS"
proof -
  from assms have "snd (alias, symbol) \<in> snd ` set ALIASES"
    by (rule imageI)
  then have "symbol \<in> snd ` set ALIASES" by simp
  with aliases_in_coins show ?thesis by (rule subsetD)
qed

lemma extract_coins_in_COINS: "set (extract_coins x) \<subseteq> fst ` set COINS"
proof (cases x)
  case None
  then show ?thesis by (simp add: extract_coins_def)
next
  case (Some t)
  show ?thesis
  proof (cases "t = []")
    case True
    with Some show ?thesis by (simp add: extract_coins_def)
  next
    case False
    show ?thesis
    proof
      fix y
      assume "y \<in> set (extract_coins x)"
      with Some False have
        "(\<exists>alias. (alias, y) \<in> set ALIASES \<and> search_alias None alias (lower (sub_tags t)))
         \<or> y \<in> fst ` set COINS"
        by (simp add: set_extract_coins) blast
      then show "y \<in> fst ` set COINS"
        using alias_symbol_in_COINS by blast
    qed
  qed
qed

lemma working_list:
  "snd (analyze threads) =
     take 10 (sort_key (\<lambda>x. - ht_replies x)
       (map hot_of (filter (\<lambda>t. extract_coins (Some (thread_text t)) \<noteq> []) threads)))"
  by (simp add: analyze_def Let_def fold_analyze_step)

section \<open>The report: basic facts\<close>

lemma coin_row_eq:
  "coin_row T M i x = (if M = 0 then Inl ZeroDivisionError else Inr (row_of T M i x))"
  by (simp add: coin_row_def truediv_def and_then_def Let_def row_of_def)

lemma rows_loop_eq:
  "rows_loop T M i xs =
     (if M = 0 \<and> xs \<noteq> [] then Inl ZeroDivisionError
      else Inr (map (\<lambda>(j, x). row_of T M j x) (List.enumerate i xs)))"
  by (induction xs arbitrary: i) (simp_all add: coin_row_eq and_then_def)

lemma heat_row_of_eq:
  "heat_row_of H i x =
     (if H = 0 then Inl ZeroDivisionError
      else Inr \<lparr>hm_sym = fst x, hm_w = of_int (st_count (snd x)) / of_int H * 100,
                hm_color = min i 9, hm_count = st_count (snd x)\<rparr>)"
  by (simp add: heat_row_of_def truediv_def and_then_def)

lemma heat_loop_err:
  "(\<exists>e. heat_loop H i xs = Inl e) = (H = 0 \<and> xs \<noteq> [])"
  by (induction xs arbitrary: i) (auto simp: heat_row_of_eq and_then_def split: sum.splits)

lemma heat_loop_err_kind: "heat_loop H i xs = Inl e \<Longrightarrow> e = ZeroDivisionError"
  by (induction xs arbitrary: i) (auto simp: heat_row_of_eq and_then_def split: sum.splits if_splits)

lemma by_count_Nil: "(by_count cc = []) = (cc = [])"
proof -
  have "length (by_count cc) = length cc" by (simp add: by_count_def)
  then show ?thesis by (metis length_0_conv)
qed

lemma hd_by_count_is_Max:
  assumes "by_count cc = x # xs"
  shows "st_count (snd x) = Max (set (counts cc))"
proof -
  have srt: "sorted (map (\<lambda>x. - st_count (snd x)) (by_count cc))"
    unfolding by_count_def by (rule sorted_sort_key)
  have set_eq: "set (by_count cc) = set cc" by (simp add: by_count_def)
  have x_in: "x \<in> set cc" using assms set_eq by (metis list.set_intros(1))
  have "st_count (snd y) \<le> st_count (snd x)" if "y \<in> set cc" for y
  proof -
    from that set_eq assms have "y = x \<or> y \<in> set xs" by auto
    then show ?thesis
    proof
      assume "y = x" then show ?thesis by simp
    next
      assume "y \<in> set xs"
      with srt assms have "- st_count (snd x) \<le> - st_count (snd y)" by auto
      then show ?thesis by simp
    qed
  qed
  then have "\<forall>c \<in> set (counts cc). c \<le> st_count (snd x)" by (auto simp: counts_def)
  moreover have "st_count (snd x) \<in> set (counts cc)" using x_in by (auto simp: counts_def)
  ultimately show ?thesis by (intro Max_eqI [symmetric]) auto
qed

lemma heat_loop_eq:
  "heat_loop H i xs =
     (if H = 0 \<and> xs \<noteq> [] then Inl ZeroDivisionError
      else Inr (map (\<lambda>(j, x). heat_of H j x) (List.enumerate i xs)))"
  by (induction xs arbitrary: i) (simp_all add: heat_row_of_eq and_then_def heat_of_def)

lemma case_take10:
  "(case take 10 xs of [] \<Rightarrow> a | x # _ \<Rightarrow> f x) = (case xs of [] \<Rightarrow> a | x # _ \<Rightarrow> f x)"
  by (cases xs) simp_all

lemma take10_Nil: "(take 10 xs = []) = (xs = [])"
  by (cases xs) simp_all

lemma generate_html_eq:
  "generate_html cc hot n =
     (if max_count_of cc = 0 \<and> cc \<noteq> [] then Inl ZeroDivisionError
      else Inr \<lparr>rows_html = map (\<lambda>(j, x). row_of (sum_list (counts cc)) (max_count_of cc) j x)
                               (List.enumerate 0 (by_count cc)),
                heatmap_html = map (\<lambda>(j, x). heat_of (max_count_of cc) j x)
                               (List.enumerate 0 (take 10 (by_count cc))),
                threads_html = map thread_item_of hot,
                top_sym = (case by_count cc of [] \<Rightarrow> None | x # _ \<Rightarrow> Some (fst x)),
                top_cnt = (case by_count cc of [] \<Rightarrow> 0 | x # _ \<Rightarrow> st_count (snd x)),
                n_coins = length cc, total_shown = sum_list (counts cc),
                thread_count = n\<rparr>)"
  unfolding generate_html_def Let_def rows_loop_eq heat_loop_eq case_take10 take10_Nil
    by_count_def [symmetric] counts_def [symmetric] max_count_of_def [symmetric]
  by (simp add: and_then_def by_count_Nil)

lemma max_count_of_is_Max: "cc \<noteq> [] \<Longrightarrow> max_count_of cc = Max (set (counts cc))"
proof -
  assume "cc \<noteq> []"
  then obtain x xs where e: "by_count cc = x # xs"
    by (metis by_count_Nil list.exhaust)
  then show ?thesis
    by (simp add: max_count_of_def hd_by_count_is_Max)
qed

lemma sum_list_by_count:
  "sum_list (map (f :: string \<times> coin_stat \<Rightarrow> 'a::comm_monoid_add) (by_count cc)) = sum_list (map f cc)"
proof -
  have "mset (map f (by_count cc)) = mset (map f cc)"
    by (simp add: by_count_def)
  then show ?thesis by (metis sum_mset_sum_list)
qed

lemma sum_list_scaled:
  "sum_list (map (\<lambda>x. of_int (c x) / (t :: rat) * 100) xs) = of_int (sum_list (map c xs)) / t * 100"
  by (induction xs) (simp_all add: add_divide_distrib distrib_right)

lemma map_enumerate_snd: "map (\<lambda>(j, x). f x) (List.enumerate i xs) = map f xs"
  by (induction xs arbitrary: i) simp_all

lemma rows_sym: "map r_sym (map (\<lambda>(j, x). row_of T M j x) (List.enumerate i xs)) = map fst xs"
  by (induction xs arbitrary: i) (simp_all add: row_of_def)

lemma rows_count:
  "map r_count (map (\<lambda>(j, x). row_of T M j x) (List.enumerate i xs)) = counts xs"
  by (induction xs arbitrary: i) (simp_all add: row_of_def counts_def)

lemma rows_pct:
  "map r_pct (map (\<lambda>(j, x). row_of T M j x) (List.enumerate i xs)) =
     map (\<lambda>x. if T = 0 then 0 else of_int (st_count (snd x)) / of_int T * 100) xs"
  by (induction xs arbitrary: i) (simp_all add: row_of_def)

lemma rows_member:
  assumes "row \<in> set (map (\<lambda>(j, x). row_of T M j x) (List.enumerate i xs))"
  shows "\<exists>j x. x \<in> set xs \<and> row = row_of T M j x"
proof -
  from assms obtain p where p: "p \<in> set (List.enumerate i xs)"
    and row: "row = (\<lambda>(j, x). row_of T M j x) p"
    by auto
  from p have "snd p \<in> snd ` set (List.enumerate i xs)" by (rule imageI)
  then have "snd p \<in> set (map snd (List.enumerate i xs))" by (simp only: set_map)
  then have "snd p \<in> set xs" by (simp only: map_snd_enumerate)
  moreover from row have "row = row_of T M (fst p) (snd p)" by (simp add: case_prod_beta)
  ultimately show ?thesis by blast
qed

lemma positive_sum_has_positive: "0 < sum_list (xs :: int list) \<Longrightarrow> \<exists>x \<in> set xs. 0 < x"
proof (rule ccontr)
  assume pos: "0 < sum_list xs" and "\<not> (\<exists>x \<in> set xs. 0 < x)"
  then have "\<forall>x \<in> set xs. x \<le> 0" by auto
  then have "sum_list xs \<le> 0" by (simp add: sum_list_nonpos)
  with pos show False by simp
qed

lemma positive_total_max_nonzero:
  assumes "0 < sum_list (counts cc)"
  shows "cc \<noteq> [] \<and> 0 < Max (set (counts cc))"
proof -
  from assms obtain x where x: "x \<in> set (counts cc)" "0 < x"
    using positive_sum_has_positive by blast
  from x(1) have le: "x \<le> Max (set (counts cc))" by simp
  from x(1) have "counts cc \<noteq> []" by auto
  then have "cc \<noteq> []" by (simp add: counts_def)
  moreover from le x(2) have "0 < Max (set (counts cc))" by linarith
  ultimately show ?thesis by simp
qed

lemma analyze_counts_positive:
  assumes "(k, v) \<in> set (fst (analyze threads))"
  shows "1 \<le> st_count v"
proof -
  from assms distinct_keys_analyze [of threads]
  have "map_of (fst (analyze threads)) k = Some v" by simp
  then show ?thesis
    by (auto simp: map_of_analyze Let_def split: if_splits) (cases "filter (\<lambda>t. mentions t k) threads"; simp)+
qed

section \<open>The patterns match whole words\<close>

lemma upper_is_word: "is_upper c \<Longrightarrow> is_word c"
  by (simp add: is_upper_def is_word_def Let_def)

lemma first_opt_Nil: "first_opt [] = None"
  by (simp add: first_opt_def)

lemma first_opt_Cons: "first_opt (c # cs) = Some c"
  by (simp add: first_opt_def)

lemma first_opt_append: "w \<noteq> [] \<Longrightarrow> first_opt (w @ post) = Some (hd w)"
  by (cases w) (simp_all add: first_opt_def)

lemma last_opt_Nil: "last_opt p [] = p"
  by (simp add: last_opt_def)

lemma last_opt_Cons: "last_opt p (c # cs) = last_opt (Some c) cs"
  by (simp add: last_opt_def)

lemma is_word_opt_Some: "is_word_opt (Some c) = is_word c"
  by (simp add: is_word_opt_def)

lemma is_word_opt_None: "is_word_opt None = False"
  by (simp add: is_word_opt_def)

lemma occurs_Nil: "occurs_as_word p w [] = occurs_at_front p w []"
  by (auto simp: occurs_as_word_def occurs_at_front_def last_opt_Nil)

lemma occurs_Cons:
  "occurs_as_word p w (c # cs) = (occurs_at_front p w (c # cs) \<or> occurs_as_word (Some c) w cs)"
proof
  assume "occurs_as_word p w (c # cs)"
  then obtain pre post where s: "c # cs = pre @ w @ post"
    and l: "\<not> is_word_opt (last_opt p pre)" and r: "\<not> is_word_opt (first_opt post)"
    unfolding occurs_as_word_def by blast
  show "occurs_at_front p w (c # cs) \<or> occurs_as_word (Some c) w cs"
  proof (cases pre)
    case Nil
    with s l r have "occurs_at_front p w (c # cs)"
      unfolding occurs_at_front_def by (auto simp: last_opt_Nil)
    then show ?thesis ..
  next
    case (Cons x pre')
    with s have "x = c" and "cs = pre' @ w @ post" by simp_all
    moreover from l Cons \<open>x = c\<close> have "\<not> is_word_opt (last_opt (Some c) pre')"
      by (simp add: last_opt_Cons)
    ultimately have "occurs_as_word (Some c) w cs"
      unfolding occurs_as_word_def using r by blast
    then show ?thesis ..
  qed
next
  assume "occurs_at_front p w (c # cs) \<or> occurs_as_word (Some c) w cs"
  then show "occurs_as_word p w (c # cs)"
  proof
    assume "occurs_at_front p w (c # cs)"
    then obtain post where "c # cs = [] @ w @ post" "\<not> is_word_opt (last_opt p [])"
      "\<not> is_word_opt (first_opt post)"
      unfolding occurs_at_front_def by (auto simp: last_opt_Nil)
    then show ?thesis unfolding occurs_as_word_def by blast
  next
    assume "occurs_as_word (Some c) w cs"
    then obtain pre post where "cs = pre @ w @ post"
      and "\<not> is_word_opt (last_opt (Some c) pre)" and r: "\<not> is_word_opt (first_opt post)"
      unfolding occurs_as_word_def by blast
    then have "c # cs = (c # pre) @ w @ post" "\<not> is_word_opt (last_opt p (c # pre))"
      by (simp_all add: last_opt_Cons)
    with r show ?thesis unfolding occurs_as_word_def by blast
  qed
qed

lemma match_alias_front:
  assumes "a \<noteq> []" and "\<forall>c \<in> set a. is_word c"
  shows "match_alias p a s = occurs_at_front p a s"
proof
  from assms have hd_w: "is_word (hd a)" and last_w: "is_word (last a)" by simp_all
  from assms(1) have lo: "last_opt p a = Some (last a)" by (simp add: last_opt_def)
  {
    assume m: "match_alias p a s"
    then have t: "take (length a) s = a" by (simp add: match_alias_def)
    then have s: "s = a @ drop (length a) s" by (metis append_take_drop_id)
    then have "first_opt s = Some (hd a)" using assms(1) first_opt_append by metis
    with m hd_w have "\<not> is_word_opt p"
      by (simp add: match_alias_def boundary_def is_word_opt_Some)
    moreover from m lo last_w have "\<not> is_word_opt (first_opt (drop (length a) s))"
      by (simp add: match_alias_def boundary_def is_word_opt_Some)
    ultimately show "occurs_at_front p a s"
      unfolding occurs_at_front_def using s by blast
  }
  {
    assume "occurs_at_front p a s"
    then obtain post where s: "s = a @ post" and l: "\<not> is_word_opt p"
      and r: "\<not> is_word_opt (first_opt post)"
      unfolding occurs_at_front_def by blast
    from s assms(1) have "first_opt s = Some (hd a)" by (simp add: first_opt_append)
    with s l r lo hd_w last_w show "match_alias p a s"
      by (simp add: match_alias_def boundary_def is_word_opt_Some)
  }
qed

lemma search_alias_iff:
  assumes "a \<noteq> []" and "\<forall>c \<in> set a. is_word c"
  shows "search_alias p a s = occurs_as_word p a s"
  by (induction s arbitrary: p) (simp_all add: occurs_Nil occurs_Cons match_alias_front [OF assms])

lemma run_nth_upper:
  assumes "i < length (takeWhile is_upper s)"
  shows "is_upper (s ! i)"
proof -
  from assms have "takeWhile is_upper s ! i = s ! i" by (rule takeWhile_nth)
  moreover from assms have "takeWhile is_upper s ! i \<in> set (takeWhile is_upper s)" by (rule nth_mem)
  ultimately show ?thesis by (metis set_takeWhileD)
qed

lemma run_first_opt:
  assumes "0 < length (takeWhile is_upper s)"
  shows "\<exists>c. first_opt s = Some c \<and> is_word c"
proof -
  from assms have "is_upper (s ! 0)" by (rule run_nth_upper)
  moreover from assms have "s \<noteq> []" by auto
  ultimately show ?thesis
    by (cases s) (auto simp: first_opt_Cons upper_is_word)
qed

lemma first_opt_drop: "m < length s \<Longrightarrow> first_opt (drop m s) = Some (s ! m)"
  by (simp add: first_opt_def Cons_nth_drop_Suc [symmetric])

lemma boundary_at_inside:
  assumes "0 < m" and "m < length (takeWhile is_upper s)"
  shows "\<not> boundary_at s m"
proof -
  have len: "length (takeWhile is_upper s) \<le> length s" by (rule length_takeWhile_le)
  from assms have "is_upper (s ! (m - 1))" by (intro run_nth_upper) simp
  moreover from assms have "is_upper (s ! m)" by (intro run_nth_upper)
  moreover from assms len have "first_opt (drop m s) = Some (s ! m)" by (intro first_opt_drop) simp
  ultimately show ?thesis
    by (simp add: boundary_at_def boundary_def is_word_opt_Some upper_is_word)
qed

lemma boundary_at_end:
  assumes "0 < m" and "m = length (takeWhile is_upper s)"
  shows "boundary_at s m = (\<not> is_word_opt (first_opt (drop m s)))"
proof -
  from assms have "is_upper (s ! (m - 1))" by (intro run_nth_upper) simp
  then show ?thesis
    by (simp add: boundary_at_def boundary_def is_word_opt_Some upper_is_word)
qed

lemma match_symbol_SomeD:
  assumes "match_symbol p s = Some m"
  shows "\<not> is_word_opt p \<and> m = length (takeWhile is_upper s) \<and> 2 \<le> m \<and> m \<le> 8
         \<and> \<not> is_word_opt (first_opt (drop m s))"
proof -
  let ?n = "length (takeWhile is_upper s)"
  from assms have b: "boundary p (first_opt s)"
    and f: "List.find (boundary_at s) (rev [2 ..< Suc (min 8 ?n)]) = Some m"
    by (simp_all add: match_symbol_def split: if_splits)
  from f have "m \<in> set (rev [2 ..< Suc (min 8 ?n)])" by (rule find_Some_mem)
  then have range: "2 \<le> m" "m \<le> 8" "m \<le> ?n" by auto
  from f have at: "boundary_at s m" by (rule find_Some_holds)
  have "\<not> m < ?n"
  proof
    assume "m < ?n"
    with range(1) have "\<not> boundary_at s m" by (intro boundary_at_inside) simp_all
    with at show False by simp
  qed
  with range(3) have eq: "m = ?n" by simp
  from range(1) have pos: "0 < m" by simp
  from boundary_at_end [OF pos eq] at have r: "\<not> is_word_opt (first_opt (drop m s))"
    by simp
  from pos eq have "0 < length (takeWhile is_upper s)" by simp
  then obtain c where "first_opt s = Some c" "is_word c"
    using run_first_opt by blast
  with b have "\<not> is_word_opt p" by (simp add: boundary_def is_word_opt_Some)
  with eq range r show ?thesis by simp
qed

lemma match_symbol_SomeI:
  assumes "\<not> is_word_opt p" and "m = length (takeWhile is_upper s)" and "2 \<le> m" and "m \<le> 8"
    and "\<not> is_word_opt (first_opt (drop m s))"
  shows "match_symbol p s = Some m"
proof -
  from assms(3) have pos: "0 < m" by simp
  with assms(2) have "0 < length (takeWhile is_upper s)" by simp
  then obtain c where "first_opt s = Some c" "is_word c"
    using run_first_opt by blast
  with assms(1) have b: "boundary p (first_opt s)"
    by (simp add: boundary_def is_word_opt_Some)
  from boundary_at_end [OF pos assms(2)] assms(5) have at: "boundary_at s m" by simp
  from assms(2,3,4) have "rev [2 ..< Suc (min 8 (length (takeWhile is_upper s)))] = m # rev [2 ..< m]"
    by (simp add: min_def)
  with at have "List.find (boundary_at s) (rev [2 ..< Suc (min 8 (length (takeWhile is_upper s)))]) = Some m"
    by simp
  with b show ?thesis by (simp add: match_symbol_def)
qed

lemma front_run_takeWhile:
  assumes "occurs_at_front p w s" and "\<forall>c \<in> set w. is_upper c"
  shows "takeWhile is_upper s = w"
proof -
  from assms(1) obtain post where s: "s = w @ post" and r: "\<not> is_word_opt (first_opt post)"
    unfolding occurs_at_front_def by blast
  have "takeWhile is_upper post = []"
  proof (cases post)
    case Nil
    then show ?thesis by simp
  next
    case (Cons x xs)
    with r have "\<not> is_word x" by (simp add: first_opt_Cons is_word_opt_Some)
    then have "\<not> is_upper x" using upper_is_word by blast
    with Cons show ?thesis by simp
  qed
  with s assms(2) show ?thesis by simp
qed

lemma front_match:
  assumes "symbol_run w" and "occurs_at_front p w s"
  shows "match_symbol p s = Some (length w) \<and> take (length w) s = w"
proof -
  from assms have tw: "takeWhile is_upper s = w"
    by (intro front_run_takeWhile [of p]) (simp_all add: symbol_run_def)
  from assms(2) obtain post where s: "s = w @ post" and l: "\<not> is_word_opt p"
    and r: "\<not> is_word_opt (first_opt post)"
    unfolding occurs_at_front_def by blast
  from s have d: "drop (length w) s = post" and t: "take (length w) s = w" by simp_all
  from assms(1) l r tw d have "match_symbol p s = Some (length w)"
    by (intro match_symbol_SomeI) (simp_all add: symbol_run_def)
  with t show ?thesis by simp
qed

lemma match_front:
  assumes "match_symbol p s = Some m"
  shows "symbol_run (take m s) \<and> occurs_at_front p (take m s) s"
proof -
  from assms have l: "\<not> is_word_opt p" and m: "m = length (takeWhile is_upper s)"
    and r2: "2 \<le> m" and r8: "m \<le> 8" and r: "\<not> is_word_opt (first_opt (drop m s))"
    using match_symbol_SomeD by blast+
  have tw: "takeWhile is_upper s = take m s"
    unfolding m by (rule takeWhile_eq_take)
  have "length (takeWhile is_upper s) \<le> length s" by (rule length_takeWhile_le)
  with m have len: "length (take m s) = m" by simp
  have "\<forall>c \<in> set (take m s). is_upper c"
    unfolding tw [symmetric] by (auto dest: set_takeWhileD)
  with len r2 r8 have "symbol_run (take m s)" by (simp add: symbol_run_def)
  moreover have "s = take m s @ drop m s" by simp
  with l r have "occurs_at_front p (take m s) s"
    unfolding occurs_at_front_def by blast
  ultimately show ?thesis by simp
qed

lemma front_after_word: "is_word c \<Longrightarrow> \<not> occurs_at_front (Some c) w s"
  by (simp add: occurs_at_front_def is_word_opt_Some)

lemma occurs_skip:
  assumes "0 < m" and "m \<le> length s" and "\<forall>i<m. is_word (s ! i)"
  shows "occurs_as_word p w s =
           (occurs_at_front p w s \<or> occurs_as_word (Some (s ! (m - 1))) w (drop m s))"
  using assms
proof (induction m arbitrary: p s)
  case 0
  then show ?case by simp
next
  case (Suc k)
  from Suc.prems(2) obtain c cs where s: "s = c # cs" by (cases s) auto
  show ?case
  proof (cases "k = 0")
    case True
    with s show ?thesis by (simp add: occurs_Cons)
  next
    case False
    then have k: "0 < k" by simp
    from Suc.prems(2) s have len: "k \<le> length cs" by simp
    have words: "\<forall>i<k. is_word (cs ! i)"
    proof (intro allI impI)
      fix i assume "i < k"
      then have "Suc i < Suc k" by simp
      with Suc.prems(3) have "is_word (s ! Suc i)" by blast
      with s show "is_word (cs ! i)" by simp
    qed
    from Suc.prems(3) s have c: "is_word c" by auto
    have "occurs_as_word (Some c) w cs =
            (occurs_at_front (Some c) w cs \<or> occurs_as_word (Some (cs ! (k - 1))) w (drop k cs))"
      using k len words by (rule Suc.IH)
    with c have "occurs_as_word (Some c) w cs = occurs_as_word (Some (cs ! (k - 1))) w (drop k cs)"
      by (simp add: front_after_word)
    moreover from k s have "s ! (Suc k - 1) = cs ! (k - 1)" by (cases k) simp_all
    moreover from s have "drop (Suc k) s = drop k cs" by simp
    ultimately show ?thesis
      unfolding s occurs_Cons by simp
  qed
qed

lemma no_run_in_empty: "\<not> (symbol_run w \<and> occurs_as_word p w [])"
  by (auto simp: symbol_run_def occurs_Nil occurs_at_front_def)

lemma set_findall_symbols:
  "set (findall_symbols p s) = {w. symbol_run w \<and> occurs_as_word p w s}"
proof (induction p s rule: findall_symbols.induct)
  case (1 p)
  show ?case using no_run_in_empty by simp
next
  case (2 p c cs)
  let ?s = "c # cs"
  show ?case
  proof (cases "match_symbol p ?s")
    case None
    have no_front: "\<not> occurs_at_front p w ?s" if "symbol_run w" for w
    proof
      assume "occurs_at_front p w ?s"
      with that have "match_symbol p ?s = Some (length w)" using front_match by blast
      with None show False by simp
    qed
    from None have "set (findall_symbols p ?s) = set (findall_symbols (Some c) cs)" by simp
    also have "\<dots> = {w. symbol_run w \<and> occurs_as_word (Some c) w cs}"
      using None by (rule "2.IH"(1))
    also have "\<dots> = {w. symbol_run w \<and> occurs_as_word p w ?s}"
      using no_front by (auto simp: occurs_Cons)
    finally show ?thesis .
  next
    case (Some m)
    then have d: "\<not> is_word_opt p" "m = length (takeWhile is_upper ?s)" "2 \<le> m"
      using match_symbol_SomeD by blast+
    have len: "m \<le> length ?s" unfolding d(2) by (rule length_takeWhile_le)
    have words: "\<forall>i<m. is_word (?s ! i)"
    proof (intro allI impI)
      fix i assume "i < m"
      then have "i < length (takeWhile is_upper ?s)" unfolding d(2) .
      then have "is_upper (?s ! i)" by (rule run_nth_upper)
      then show "is_word (?s ! i)" by (rule upper_is_word)
    qed
    from d(3) have pos: "0 < m" by simp
    have skip: "occurs_as_word p w ?s =
        (occurs_at_front p w ?s \<or> occurs_as_word (Some (?s ! (m - 1))) w (drop m ?s))" for w
      using pos len words by (rule occurs_skip)
    have front: "(symbol_run w \<and> occurs_at_front p w ?s) = (w = take m ?s)" for w
    proof
      assume "symbol_run w \<and> occurs_at_front p w ?s"
      then have "match_symbol p ?s = Some (length w) \<and> take (length w) ?s = w"
        using front_match by blast
      with Some show "w = take m ?s" by simp
    next
      assume "w = take m ?s"
      with Some show "symbol_run w \<and> occurs_at_front p w ?s"
        using match_front by blast
    qed
    from Some have "set (findall_symbols p ?s) =
        insert (take m ?s) (set (findall_symbols (Some (?s ! (m - 1))) (drop m ?s)))"
      by simp
    also have "set (findall_symbols (Some (?s ! (m - 1))) (drop m ?s))
        = {w. symbol_run w \<and> occurs_as_word (Some (?s ! (m - 1))) w (drop m ?s)}"
      using Some by (rule "2.IH"(2))
    also have "insert (take m ?s) \<dots> = {w. symbol_run w \<and> occurs_as_word p w ?s}"
      using front skip by blast
    finally show ?thesis .
  qed
qed

lemma aliases_are_words:
  "\<forall>x \<in> set ALIASES. fst x \<noteq> [] \<and> (\<forall>c \<in> set (fst x). is_word c) \<and> lower (fst x) = fst x"
  by (simp add: ALIASES_def is_word_def lower_def lower_char_def)

section \<open>Tags and the alias table\<close>

lemma sub_tags_no_tag: "CHR ''<'' \<notin> set s \<Longrightarrow> sub_tags s = s"
  by (induction s) auto

lemma tag_end_closed:
  assumes "body \<noteq> []" and "CHR ''>'' \<notin> set body"
  shows "tag_end (body @ CHR ''>'' # rest) = Some rest"
proof -
  from assms(2) have all: "\<forall>x \<in> set body. x \<noteq> CHR ''>''" by blast
  then have "takeWhile (\<lambda>c. c \<noteq> CHR ''>'') (body @ CHR ''>'' # rest) = body"
    and "dropWhile (\<lambda>c. c \<noteq> CHR ''>'') (body @ CHR ''>'' # rest) = CHR ''>'' # rest"
    by simp_all
  with assms(1) show ?thesis by (simp add: tag_end_def)
qed

lemma sub_tags_first_tag:
  assumes "CHR ''<'' \<notin> set pre" and "body \<noteq> []" and "CHR ''>'' \<notin> set body"
  shows "sub_tags (pre @ CHR ''<'' # body @ CHR ''>'' # rest) = pre @ CHR '' '' # sub_tags rest"
  using assms(1)
proof (induction pre)
  case Nil
  show ?case using tag_end_closed [OF assms(2,3)] by simp
next
  case (Cons x pre)
  then have "x \<noteq> CHR ''<''" and "CHR ''<'' \<notin> set pre" by auto
  with Cons.IH show ?case by simp
qed



lemma alias_search_iff:
  assumes "(alias, symbol) \<in> set ALIASES"
  shows "search_alias p alias s = occurs_as_word p alias s"
proof -
  from aliases_are_words assms
  have "fst (alias, symbol) \<noteq> [] \<and> (\<forall>c \<in> set (fst (alias, symbol)). is_word c)
        \<and> lower (fst (alias, symbol)) = fst (alias, symbol)"
    by (rule bspec)
  then have "alias \<noteq> []" and "\<forall>c \<in> set alias. is_word c" by simp_all
  then show ?thesis by (rule search_alias_iff)
qed


section \<open>A run: basic facts\<close>

lemma fetch_catalog_sent: "snd (fetch_catalog net sent) = Suc sent"
  by (simp add: fetch_catalog_def requests_get_def Let_def)

lemma fetch_catalog_first:
  assumes "net' 0 = net 0"
  shows "fetch_catalog net' 0 = fetch_catalog net 0"
  using assms by (simp add: fetch_catalog_def requests_get_def Let_def)

lemma fetch_catalog_transport:
  assumes "net 0 = Raises (ConnectionError m) \<and> e = ConnectionError m
         \<or> net 0 = Raises (Timeout m) \<and> e = Timeout m
         \<or> (\<exists>body. net 0 = Response code body \<and> 400 \<le> code \<and> code < 600 \<and> e = HTTPError code)"
  shows "fst (fetch_catalog net 0) = ([Fetching], Inl e) \<and> is_request_exception e"
  using assms by (auto simp: fetch_catalog_def requests_get_def Let_def)

lemma main_request_exception:
  assumes "fst (fetch_catalog (http w) 0) = (out, Inl e)" and "is_request_exception e"
  shows "main w = \<lparr>printed = [Banner] @ out @ [NetworkError e], requests = 1,
                    written = None, status = Returned\<rparr>"
  using assms by (simp add: main_def Let_def except_def fetch_catalog_sent)

lemma requests_main: "requests (main w) = 1"
  by (simp add: main_def Let_def except_def fetch_catalog_sent split: sum.splits)

lemma except_raised:
  "status (except out sent e) = Raised x \<Longrightarrow> \<not> is_request_exception x"
  by (simp add: except_def split: if_splits)

lemma main_cases: "(\<exists>out e. main w = except out 1 e) \<or> status (main w) = Returned"
proof -
  obtain out r where f: "fst (fetch_catalog (http w) 0) = (out, r)"
    by (cases "fst (fetch_catalog (http w) 0)")
  show ?thesis
  proof (cases r)
    case (Inl e)
    with f have "main w = except ([Banner] @ out) 1 e"
      by (simp add: main_def Let_def fetch_catalog_sent)
    then show ?thesis by blast
  next
    case (Inr threads)
    note r = this
    show ?thesis
    proof (cases "fst (analyze threads) = []")
      case True
      with f r have "status (main w) = Returned"
        by (simp add: main_def Let_def fetch_catalog_sent)
      then show ?thesis ..
    next
      case False
      note ne = this
      show ?thesis
      proof (cases "generate_html (fst (analyze threads)) (snd (analyze threads)) (length threads)")
        case (Inl e)
        with f r ne have "\<exists>out. main w = except out 1 e"
          by (simp add: main_def Let_def fetch_catalog_sent) (rule exI, rule refl)
        then show ?thesis by blast
      next
        case (Inr html)
        note g = this
        show ?thesis
        proof (cases "writable w")
          case True
          with f r ne g have "status (main w) = Returned"
            by (simp add: main_def Let_def fetch_catalog_sent)
          then show ?thesis ..
        next
          case False
          with f r ne g have "\<exists>out. main w = except out 1 OSError"
            by (simp add: main_def Let_def fetch_catalog_sent) (rule exI, rule refl)
          then show ?thesis by blast
        qed
      qed
    qed
  qed
qed

lemma raised_is_not_request_exception:
  assumes "status (main w) = Raised x"
  shows "\<not> is_request_exception x"
proof -
  from main_cases [of w] assms obtain out e where "main w = except out 1 e"
    by auto
  with assms have "status (except out 1 e) = Raised x" by simp
  then show ?thesis by (rule except_raised)
qed

section \<open>Properties of the aggregation\<close>



text \<open>
  Claim C4. For every sequence of thread records, the hot-thread list that \<open>analyze\<close>
  returns has at most 10 entries and is ordered by reply count, largest first. It is the
  first 10 entries of a list that holds exactly the hot threads of the threads with a
  non-empty extraction result, ordered by reply count, largest first, in which threads
  with the same reply count keep the order in which they were met.
\<close>

theorem hot_threads_sorted_top10:
  "length (snd (analyze threads)) \<le> 10
   \<and> sorted_wrt (\<lambda>a b. ht_replies a \<ge> ht_replies b) (snd (analyze threads))
   \<and> (\<exists>full. snd (analyze threads) = take 10 full
        \<and> mset full = mset (map hot_of (filter (\<lambda>t. extract_coins (Some (thread_text t)) \<noteq> []) threads))
        \<and> sorted_wrt (\<lambda>a b. ht_replies a \<ge> ht_replies b) full
        \<and> (\<forall>k. filter (\<lambda>h. ht_replies h = k) full =
                 filter (\<lambda>h. ht_replies h = k)
                   (map hot_of (filter (\<lambda>t. extract_coins (Some (thread_text t)) \<noteq> []) threads))))"
proof -
  define working where
    "working = map hot_of (filter (\<lambda>t. extract_coins (Some (thread_text t)) \<noteq> []) threads)"
  define full where "full = sort_key (\<lambda>x. - ht_replies x) working"
  have hot: "snd (analyze threads) = take 10 full"
    by (simp add: working_list full_def working_def)
  have perm: "mset full = mset working"
    by (simp add: full_def)
  have "sorted (map (\<lambda>x. - ht_replies x) full)"
    unfolding full_def by (rule sorted_sort_key)
  then have sorted_full: "sorted_wrt (\<lambda>a b. ht_replies a \<ge> ht_replies b) full"
    by (simp add: sorted_map)
  have stable: "filter (\<lambda>h. ht_replies h = k) full = filter (\<lambda>h. ht_replies h = k) working" for k
    using sort_key_stable [of "\<lambda>x. - ht_replies x" "- k" working]
    by (simp add: full_def)
  have "sorted_wrt (\<lambda>a b. ht_replies a \<ge> ht_replies b) (take 10 full)"
    using sorted_full by (rule sorted_wrt_take)
  with hot perm sorted_full stable show ?thesis
    unfolding working_def by auto
qed

theorem hot_threads_sorted_top10_witness:
  "map ht_replies (snd (analyze
       [\<lparr>t_no = Some 1, t_sub = Some ''SOL'', t_com = None, t_replies = Some 2\<rparr>,
        \<lparr>t_no = Some 2, t_sub = Some ''SOL'', t_com = None, t_replies = Some 10\<rparr>])) = [10, 2]
   \<and> sorted_wrt (\<lambda>a b. ht_replies a \<ge> ht_replies b) (snd (analyze
       [\<lparr>t_no = Some 1, t_sub = Some ''SOL'', t_com = None, t_replies = Some 2\<rparr>,
        \<lparr>t_no = Some 2, t_sub = Some ''SOL'', t_com = None, t_replies = Some 10\<rparr>]))"
proof -
  have "map ht_replies (snd (analyze
       [\<lparr>t_no = Some 1, t_sub = Some ''SOL'', t_com = None, t_replies = Some 2\<rparr>,
        \<lparr>t_no = Some 2, t_sub = Some ''SOL'', t_com = None, t_replies = Some 10\<rparr>])) = [10, 2]"
    by code_simp
  then show ?thesis
    using hot_threads_sorted_top10
      [of "[\<lparr>t_no = Some 1, t_sub = Some ''SOL'', t_com = None, t_replies = Some 2\<rparr>,
            \<lparr>t_no = Some 2, t_sub = Some ''SOL'', t_com = None, t_replies = Some 10\<rparr>]"]
    by blast
qed

text \<open>
  Claim C7. For every thread record whose extraction result is non-empty, the loop body
  of \<open>analyze\<close> appends one hot thread, and its display text is the subject when the
  subject is present and non-empty, and otherwise the first 80 characters of the body,
  the empty text when the body is absent too.
\<close>

theorem display_text_of_hot_thread:
  assumes "extract_coins (Some (thread_text t)) \<noteq> []"
  shows "\<exists>h. snd (analyze_step t (cc, hot)) = hot @ [h]
           \<and> (\<forall>s. t_sub t = Some s \<and> s \<noteq> [] \<longrightarrow> ht_sub h = s)
           \<and> (t_sub t = None \<or> t_sub t = Some [] \<longrightarrow>
                (\<forall>b. t_com t = Some b \<longrightarrow> ht_sub h = take 80 b)
                \<and> (t_com t = None \<longrightarrow> ht_sub h = []))"
proof -
  have "snd (analyze_step t (cc, hot)) = hot @ [hot_of t]"
    using assms by (simp add: analyze_step_eq)
  moreover have "\<forall>s. t_sub t = Some s \<and> s \<noteq> [] \<longrightarrow> ht_sub (hot_of t) = s"
    by (simp add: hot_of_def display_text_def py_or_def)
  moreover have "t_sub t = None \<or> t_sub t = Some [] \<longrightarrow>
      (\<forall>b. t_com t = Some b \<longrightarrow> ht_sub (hot_of t) = take 80 b)
      \<and> (t_com t = None \<longrightarrow> ht_sub (hot_of t) = [])"
    by (auto simp: hot_of_def display_text_def py_or_def)
  ultimately show ?thesis
    by (intro exI [of _ "hot_of t"] conjI)
qed

theorem display_text_of_hot_thread_witness:
  "extract_coins (Some (thread_text
       \<lparr>t_no = Some 9, t_sub = Some [], t_com = Some ''monero'', t_replies = None\<rparr>)) \<noteq> []
   \<and> (\<exists>h. snd (analyze_step
              \<lparr>t_no = Some 9, t_sub = Some [], t_com = Some ''monero'', t_replies = None\<rparr>
              ([], [])) = [h]
          \<and> ht_sub h = ''monero'')"
proof -
  have ne: "extract_coins (Some (thread_text
       \<lparr>t_no = Some 9, t_sub = Some [], t_com = Some ''monero'', t_replies = None\<rparr>)) \<noteq> []"
    by code_simp
  from display_text_of_hot_thread [OF ne, of "[]" "[]"] ne show ?thesis
    by auto
qed

text \<open>
  Claim C9. Every value of the alias table is a key of the coin table; so every symbol
  that \<open>extract_coins\<close> returns, for any text, is a key of the coin table, and for every
  sequence of thread records so is every key of the aggregate mapping and every symbol in
  the list of matched symbols of a hot thread.
\<close>

theorem symbols_are_coin_keys:
  "snd ` set ALIASES \<subseteq> fst ` set COINS
   \<and> set (extract_coins x) \<subseteq> fst ` set COINS
   \<and> fst ` set (fst (analyze threads)) \<subseteq> fst ` set COINS
   \<and> (\<forall>h \<in> set (snd (analyze threads)). set (ht_coins h) \<subseteq> fst ` set COINS)"
proof -
  have keys: "fst ` set (fst (analyze threads)) \<subseteq> fst ` set COINS"
  proof
    fix y
    assume "y \<in> fst ` set (fst (analyze threads))"
    then have "y \<in> fst ` set (fold tally threads [])"
      by (simp add: analyze_def Let_def fold_analyze_step)
    then obtain t where "y \<in> set (extract_coins (Some (thread_text t)))"
      unfolding keys_fold_tally by auto
    with extract_coins_in_COINS show "y \<in> fst ` set COINS"
      by (rule subsetD)
  qed
  have "set (ht_coins h) \<subseteq> fst ` set COINS" if "h \<in> set (snd (analyze threads))" for h
  proof -
    from that have "h \<in> set (sort_key (\<lambda>x. - ht_replies x)
       (map hot_of (filter (\<lambda>t. extract_coins (Some (thread_text t)) \<noteq> []) threads)))"
      unfolding working_list by (rule in_set_takeD)
    then obtain t where "h = hot_of t" by auto
    then have "ht_coins h = extract_coins (Some (thread_text t))"
      by (simp add: hot_of_def)
    then show ?thesis
      using extract_coins_in_COINS [of "Some (thread_text t)"] by simp
  qed
  then have hot: "\<forall>h \<in> set (snd (analyze threads)). set (ht_coins h) \<subseteq> fst ` set COINS"
    by (rule ballI)
  from aliases_in_coins extract_coins_in_COINS [of x] keys hot show ?thesis
    by (intro conjI)
qed

theorem symbols_are_coin_keys_witness:
  "''ETH'' \<in> set (extract_coins (Some ''ether''))
   \<and> map ht_coins (snd (analyze
        [\<lparr>t_no = Some 4, t_sub = Some ''ether'', t_com = None, t_replies = Some 1\<rparr>])) = [[''ETH'']]
   \<and> ''ETH'' \<in> fst ` set COINS"
proof -
  let ?threads = "[\<lparr>t_no = Some 4, t_sub = Some ''ether'', t_com = None, t_replies = Some 1\<rparr>]"
  have e: "''ETH'' \<in> set (extract_coins (Some ''ether''))"
    by code_simp
  have h: "map ht_coins (snd (analyze ?threads)) = [[''ETH'']]"
    by code_simp
  then obtain x where x: "snd (analyze ?threads) = [x]" "ht_coins x = [''ETH'']"
    by auto
  from symbols_are_coin_keys [of "Some ''ether''" ?threads] x(1)
  have "set (ht_coins x) \<subseteq> fst ` set COINS"
    by simp
  with x(2) have "''ETH'' \<in> fst ` set COINS" by simp
  with e h show ?thesis by (intro conjI)
qed

section \<open>Properties of the report\<close>

text \<open>
  Claim C8. With the divisions done exactly, in every report that \<open>generate_html\<close>
  produces the rows are the symbols in the order of \<open>sorted_coins\<close>, each with its count;
  the percentage of a row is count / total * 100, where total is the sum of all counts,
  and 0 when the total is 0; its bar width is count / max-count * 100, where max-count is
  the largest count. When the total is positive a report is produced and its percentages
  add up to 100.
\<close>

theorem derived_values_exact:
  "(\<forall>r. generate_html cc hot n = Inr r \<longrightarrow>
        map r_sym (rows_html r) = map fst (by_count cc)
      \<and> map r_count (rows_html r) = counts (by_count cc)
      \<and> (\<forall>row \<in> set (rows_html r).
            r_pct row = (if sum_list (counts cc) = 0 then 0
                         else of_int (r_count row) / of_int (sum_list (counts cc)) * 100)
          \<and> r_bar_w row = of_int (r_count row) / of_int (Max (set (counts cc))) * 100))
   \<and> (0 < sum_list (counts cc) \<longrightarrow>
        (\<exists>r. generate_html cc hot n = Inr r \<and> sum_list (map r_pct (rows_html r)) = 100))"
proof (intro conjI allI impI)
  fix r
  assume ok: "generate_html cc hot n = Inr r"
  then have rows: "rows_html r =
      map (\<lambda>(j, x). row_of (sum_list (counts cc)) (max_count_of cc) j x) (List.enumerate 0 (by_count cc))"
    by (auto simp: generate_html_eq split: if_splits)
  show "map r_sym (rows_html r) = map fst (by_count cc)"
    unfolding rows by (rule rows_sym)
  show "map r_count (rows_html r) = counts (by_count cc)"
    unfolding rows by (rule rows_count)
  show "\<forall>row \<in> set (rows_html r).
            r_pct row = (if sum_list (counts cc) = 0 then 0
                         else of_int (r_count row) / of_int (sum_list (counts cc)) * 100)
          \<and> r_bar_w row = of_int (r_count row) / of_int (Max (set (counts cc))) * 100"
  proof
    fix row
    assume "row \<in> set (rows_html r)"
    then obtain j x where x: "x \<in> set (by_count cc)"
      and row: "row = row_of (sum_list (counts cc)) (max_count_of cc) j x"
      unfolding rows using rows_member by blast
    from x have "cc \<noteq> []" by (auto simp: by_count_def)
    then have "max_count_of cc = Max (set (counts cc))" by (rule max_count_of_is_Max)
    with row show "r_pct row = (if sum_list (counts cc) = 0 then 0
                         else of_int (r_count row) / of_int (sum_list (counts cc)) * 100)
          \<and> r_bar_w row = of_int (r_count row) / of_int (Max (set (counts cc))) * 100"
      by (simp add: row_of_def)
  qed
next
  assume pos: "0 < sum_list (counts cc)"
  then have ne: "cc \<noteq> []" and mx: "0 < Max (set (counts cc))"
    using positive_total_max_nonzero by blast+
  from ne have "max_count_of cc = Max (set (counts cc))" by (rule max_count_of_is_Max)
  with mx have nz: "max_count_of cc \<noteq> 0" by simp
  define r where "r = \<lparr>rows_html = map (\<lambda>(j, x). row_of (sum_list (counts cc)) (max_count_of cc) j x)
                               (List.enumerate 0 (by_count cc)),
                heatmap_html = map (\<lambda>(j, x). heat_of (max_count_of cc) j x)
                               (List.enumerate 0 (take 10 (by_count cc))),
                threads_html = map thread_item_of hot,
                top_sym = (case by_count cc of [] \<Rightarrow> None | x # _ \<Rightarrow> Some (fst x)),
                top_cnt = (case by_count cc of [] \<Rightarrow> 0 | x # _ \<Rightarrow> st_count (snd x)),
                n_coins = length cc, total_shown = sum_list (counts cc),
                thread_count = n\<rparr>"
  have ok: "generate_html cc hot n = Inr r"
    unfolding r_def using nz by (simp add: generate_html_eq)
  have "rows_html r =
      map (\<lambda>(j, x). row_of (sum_list (counts cc)) (max_count_of cc) j x) (List.enumerate 0 (by_count cc))"
    by (simp add: r_def)
  then have "map r_pct (rows_html r) =
      map (\<lambda>x. if sum_list (counts cc) = 0 then 0
               else of_int (st_count (snd x)) / of_int (sum_list (counts cc)) * 100) (by_count cc)"
    by (simp only: rows_pct)
  with pos have "map r_pct (rows_html r) =
      map (\<lambda>x. of_int (st_count (snd x)) / of_int (sum_list (counts cc)) * 100) (by_count cc)"
    by simp
  then have "sum_list (map r_pct (rows_html r)) =
      of_int (sum_list (map (\<lambda>x. st_count (snd x)) (by_count cc))) / of_int (sum_list (counts cc)) * 100"
    by (simp only: sum_list_scaled)
  also have "sum_list (map (\<lambda>x. st_count (snd x)) (by_count cc)) = sum_list (counts cc)"
    unfolding counts_def by (rule sum_list_by_count)
  finally have "sum_list (map r_pct (rows_html r)) = 100"
    using pos by simp
  with ok show "\<exists>r. generate_html cc hot n = Inr r \<and> sum_list (map r_pct (rows_html r)) = 100"
    by blast
qed

theorem derived_values_exact_witness:
  "0 < sum_list (counts [(''ETH'', \<lparr>st_count = 1, st_threads = [Some 2]\<rparr>),
                         (''BTC'', \<lparr>st_count = 3, st_threads = [Some 1, Some 2, Some 3]\<rparr>)])
   \<and> (\<exists>r. generate_html [(''ETH'', \<lparr>st_count = 1, st_threads = [Some 2]\<rparr>),
                           (''BTC'', \<lparr>st_count = 3, st_threads = [Some 1, Some 2, Some 3]\<rparr>)] [] 3 = Inr r
          \<and> sum_list (map r_pct (rows_html r)) = 100
          \<and> map r_sym (rows_html r) = [''BTC'', ''ETH'']
          \<and> map r_count (rows_html r) = [3, 1]
          \<and> (\<forall>row \<in> set (rows_html r).
                r_pct row = of_int (r_count row) / 4 * 100
              \<and> r_bar_w row = of_int (r_count row) / 3 * 100))"
proof -
  let ?cc = "[(''ETH'', \<lparr>st_count = 1, st_threads = [Some 2]\<rparr>),
              (''BTC'', \<lparr>st_count = 3, st_threads = [Some 1, Some 2, Some 3]\<rparr>)]"
  have total: "sum_list (counts ?cc) = 4" by (simp add: counts_def)
  have largest: "Max (set (counts ?cc)) = 3" by (simp add: counts_def)
  have sorted_coins: "by_count ?cc =
      [(''BTC'', \<lparr>st_count = 3, st_threads = [Some 1, Some 2, Some 3]\<rparr>),
       (''ETH'', \<lparr>st_count = 1, st_threads = [Some 2]\<rparr>)]"
    by (simp add: by_count_def)
  have pos: "0 < sum_list (counts ?cc)" using total by simp
  from derived_values_exact [of ?cc "[]" 3] pos
  obtain r where ok: "generate_html ?cc [] 3 = Inr r"
    and hundred: "sum_list (map r_pct (rows_html r)) = 100"
    by blast
  from derived_values_exact [of ?cc "[]" 3] ok
  have "map r_sym (rows_html r) = map fst (by_count ?cc)"
    and "map r_count (rows_html r) = counts (by_count ?cc)"
    and "\<forall>row \<in> set (rows_html r).
            r_pct row = (if sum_list (counts ?cc) = 0 then 0
                         else of_int (r_count row) / of_int (sum_list (counts ?cc)) * 100)
          \<and> r_bar_w row = of_int (r_count row) / of_int (Max (set (counts ?cc))) * 100"
    by blast+
  then have "map r_sym (rows_html r) = [''BTC'', ''ETH'']"
    and "map r_count (rows_html r) = [3, 1]"
    and "\<forall>row \<in> set (rows_html r).
                r_pct row = of_int (r_count row) / 4 * 100
              \<and> r_bar_w row = of_int (r_count row) / 3 * 100"
    by (simp_all add: sorted_coins total largest counts_def)
  with pos ok hundred show ?thesis
    by (intro conjI exI [of _ r])
qed

text \<open>
  Claim C10, as the code has it. \<open>generate_html\<close> divides by zero exactly on a
  non-empty mapping whose largest count is 0. So no division by
  zero occurs on the empty mapping, where both divisors fall back to 1 and there are no
  rows, nor on any mapping that \<open>analyze\<close> returns, where every count is at least 1; the
  percentage division is guarded by the test of the total.
\<close>

theorem division_by_zero_only_when_largest_count_is_zero:
  "(generate_html cc hot n = Inl ZeroDivisionError \<longleftrightarrow> cc \<noteq> [] \<and> Max (set (counts cc)) = 0)
   \<and> (\<exists>r. generate_html [] hot n = Inr r \<and> rows_html r = [] \<and> heatmap_html r = [])
   \<and> (\<exists>r. generate_html (fst (analyze threads)) hot n = Inr r)"
proof (intro conjI)
  show "generate_html cc hot n = Inl ZeroDivisionError \<longleftrightarrow> cc \<noteq> [] \<and> Max (set (counts cc)) = 0"
  proof (cases "cc = []")
    case True
    then show ?thesis by (simp add: generate_html_eq)
  next
    case False
    then have "max_count_of cc = Max (set (counts cc))" by (rule max_count_of_is_Max)
    with False show ?thesis by (simp add: generate_html_eq)
  qed
  show "\<exists>r. generate_html [] hot n = Inr r \<and> rows_html r = [] \<and> heatmap_html r = []"
    by (simp add: generate_html_eq by_count_def)
  show "\<exists>r. generate_html (fst (analyze threads)) hot n = Inr r"
  proof (cases "fst (analyze threads) = []")
    case True
    then show ?thesis by (simp add: generate_html_eq)
  next
    case False
    let ?cc = "fst (analyze threads)"
    from False have mx: "max_count_of ?cc = Max (set (counts ?cc))" by (rule max_count_of_is_Max)
    from False have "Max (set (counts ?cc)) \<in> set (counts ?cc)"
      by (intro Max_in) (auto simp: counts_def)
    then obtain k v where "(k, v) \<in> set ?cc" "Max (set (counts ?cc)) = st_count v"
      by (auto simp: counts_def)
    with analyze_counts_positive [of k v threads] mx have "max_count_of ?cc \<noteq> 0" by simp
    then show ?thesis by (simp add: generate_html_eq)
  qed
qed

theorem division_by_zero_only_when_largest_count_is_zero_witness:
  "generate_html [(''BTC'', \<lparr>st_count = 2, st_threads = [Some 1, Some 2]\<rparr>)] [] 2
     \<noteq> Inl ZeroDivisionError"
proof -
  have "Max (set (counts [(''BTC'', \<lparr>st_count = 2, st_threads = [Some 1, Some 2]\<rparr>)])) = 2"
    by (simp add: counts_def)
  then show ?thesis
    using division_by_zero_only_when_largest_count_is_zero
      [of "[(''BTC'', \<lparr>st_count = 2, st_threads = [Some 1, Some 2]\<rparr>)]" "[]" 2 "[]"]
    by simp
qed

text \<open>
  Claim C10 as stated, for every input, fails: on the mapping with the one entry
  \<open>"BTC"\<close> of count 0 the total is 0, so the percentage is 0 without a division, and
  the bar width is 0 / 0 * 100, which raises.
\<close>

theorem zero_count_divides_by_zero:
  "generate_html [(''BTC'', \<lparr>st_count = 0, st_threads = []\<rparr>)] [] 0 = Inl ZeroDivisionError"
  by (simp add: generate_html_def Let_def coin_row_def truediv_def and_then_def)

section \<open>Properties of a run\<close>

text \<open>
  Claim C5, as the code has it. On a transport error of the catalog request, that is a
  connection failure, a timeout, or a status from 400 to 599, the statuses on which
  \<open>raise_for_status\<close> raises, the run prints the network-error message with the cause,
  sends the one request and no other, so that it is the same run whatever a further
  request would have received, writes no document, and \<open>main\<close> returns normally. In no
  run at all does a request exception leave \<open>main\<close>: the clause for
  \<open>RequestException\<close> prints and does not raise again.
\<close>

theorem transport_error_reported_and_run_returns:
  assumes "http w 0 = Raises (ConnectionError m) \<and> e = ConnectionError m
         \<or> http w 0 = Raises (Timeout m) \<and> e = Timeout m
         \<or> (\<exists>body. http w 0 = Response code body \<and> 400 \<le> code \<and> code < 600
               \<and> e = HTTPError code)"
  shows "printed (main w) = [Banner, Fetching, NetworkError e]
       \<and> requests (main w) = 1
       \<and> (\<forall>w'. http w' 0 = http w 0 \<longrightarrow> main w' = main w)
       \<and> written (main w) = None
       \<and> status (main w) = Returned
       \<and> (\<forall>w' x. status (main w') = Raised x \<longrightarrow> \<not> is_request_exception x)"
proof -
  from assms have f: "fst (fetch_catalog (http w) 0) = ([Fetching], Inl e)"
    and r: "is_request_exception e"
    using fetch_catalog_transport by blast+
  from f r have m: "main w = \<lparr>printed = [Banner] @ [Fetching] @ [NetworkError e], requests = 1,
                    written = None, status = Returned\<rparr>"
    by (rule main_request_exception)
  have same: "main w' = main w" if "http w' 0 = http w 0" for w'
  proof -
    from that have "fetch_catalog (http w') 0 = fetch_catalog (http w) 0"
      by (rule fetch_catalog_first)
    with f have "fst (fetch_catalog (http w') 0) = ([Fetching], Inl e)" by simp
    from this r have "main w' = \<lparr>printed = [Banner] @ [Fetching] @ [NetworkError e], requests = 1,
                    written = None, status = Returned\<rparr>"
      by (rule main_request_exception)
    with m show ?thesis by (simp only:)
  qed
  from m have p: "printed (main w) = [Banner, Fetching, NetworkError e]"
    and q: "requests (main w) = 1"
    and n: "written (main w) = None"
    and s: "status (main w) = Returned"
    by simp_all
  have all_same: "\<forall>w'. http w' 0 = http w 0 \<longrightarrow> main w' = main w"
    using same by blast
  have never: "\<forall>w' x. status (main w') = Raised x \<longrightarrow> \<not> is_request_exception x"
    using raised_is_not_request_exception by blast
  from p q all_same n s never show ?thesis
    by (intro conjI)
qed

theorem transport_error_reported_and_run_returns_witness:
  "printed (main \<lparr>http = first_then (Response 503 (Inr [])) (Response 200 (Inr [])),
                  writable = True\<rparr>)
     = [Banner, Fetching, NetworkError (HTTPError 503)]
   \<and> requests (main \<lparr>http = first_then (Response 503 (Inr [])) (Response 200 (Inr [])),
                      writable = True\<rparr>) = 1
   \<and> written (main \<lparr>http = first_then (Response 503 (Inr [])) (Response 200 (Inr [])),
                     writable = True\<rparr>) = None
   \<and> status (main \<lparr>http = first_then (Response 503 (Inr [])) (Response 200 (Inr [])),
                    writable = True\<rparr>) = Returned"
proof -
  let ?w = "\<lparr>http = first_then (Response 503 (Inr [])) (Response 200 (Inr [])), writable = True\<rparr>"
  have "http ?w 0 = Raises (ConnectionError []) \<and> HTTPError 503 = ConnectionError []
        \<or> http ?w 0 = Raises (Timeout []) \<and> HTTPError 503 = Timeout []
        \<or> (\<exists>body. http ?w 0 = Response 503 body
              \<and> 400 \<le> (503 :: nat) \<and> (503 :: nat) < 600 \<and> HTTPError 503 = HTTPError 503)"
    by (simp add: first_then_def)
  from transport_error_reported_and_run_returns [OF this] show ?thesis
    by (elim conjE) (intro conjI, assumption+)
qed

text \<open>
  Claim C5 as stated fails in two ways. After a timeout \<open>main\<close> returns, so the run does
  not end in the manner of an exception. And a status that is no success but lies outside
  400 to 599 is no error for the run: on a response with status 304 whose body holds a
  thread that mentions a coin, the run goes on and writes the document.
\<close>

theorem timeout_returns_and_status_304_writes_report:
  "status (main \<lparr>http = first_then (Raises (Timeout ''read timed out''))
                                     (Raises (Timeout ''read timed out'')),
                  writable = True\<rparr>) = Returned
   \<and> map_option fst (written (main
        \<lparr>http = first_then
           (Response 304 (Inr [Some [\<lparr>t_no = Some 1, t_sub = Some ''BTC'', t_com = None,
                                       t_replies = Some 5\<rparr>]]))
           (Response 304 (Inr [])),
         writable = True\<rparr>)) = Some ''index.html''"
proof -
  have a: "analyze [\<lparr>t_no = Some 1, t_sub = Some ''BTC'', t_com = None, t_replies = Some 5\<rparr>]
      = ([(''BTC'', \<lparr>st_count = 1, st_threads = [Some 1]\<rparr>)],
         [\<lparr>ht_no = Some 1, ht_sub = ''BTC'', ht_coins = [''BTC''], ht_replies = 5\<rparr>])"
    by code_simp
  have g: "\<exists>r. generate_html [(''BTC'', \<lparr>st_count = 1, st_threads = [Some 1]\<rparr>)]
      [\<lparr>ht_no = Some 1, ht_sub = ''BTC'', ht_coins = [''BTC''], ht_replies = 5\<rparr>] (Suc 0) = Inr r"
    by (simp add: generate_html_eq max_count_of_def by_count_def)
  have "status (main \<lparr>http = first_then (Raises (Timeout ''read timed out''))
                                     (Raises (Timeout ''read timed out'')),
                  writable = True\<rparr>) = Returned"
    by (simp add: main_def fetch_catalog_def requests_get_def first_then_def except_def Let_def)
  moreover from g obtain r where "generate_html [(''BTC'', \<lparr>st_count = 1, st_threads = [Some 1]\<rparr>)]
      [\<lparr>ht_no = Some 1, ht_sub = ''BTC'', ht_coins = [''BTC''], ht_replies = 5\<rparr>] (Suc 0) = Inr r"
    by blast
  then have "map_option fst (written (main
        \<lparr>http = first_then
           (Response 304 (Inr [Some [\<lparr>t_no = Some 1, t_sub = Some ''BTC'', t_com = None,
                                       t_replies = Some 5\<rparr>]]))
           (Response 304 (Inr [])),
         writable = True\<rparr>)) = Some ''index.html''"
    by (simp add: main_def fetch_catalog_def requests_get_def first_then_def Let_def a)
  ultimately show ?thesis by (intro conjI)
qed

text \<open>
  Claim C6. Whenever the catalog is fetched and \<open>analyze\<close> yields an empty mapping,
  as it does on an empty catalog, the run prints the message that no coin was recognised
  as its last message, writes no document, and \<open>main\<close> returns normally.
\<close>

theorem no_coins_no_document:
  assumes "fst (fetch_catalog (http w) 0) = (out, Inr threads)"
    and "fst (analyze threads) = []"
  shows "printed (main w) = [Banner] @ out @ [Analyzing, NoCoins]
         \<and> requests (main w) = 1
         \<and> written (main w) = None
         \<and> status (main w) = Returned"
  using assms by (simp add: main_def Let_def fetch_catalog_sent)

theorem no_coins_no_document_witness:
  "analyze [] = ([], [])
   \<and> printed (main \<lparr>http = first_then (Response 200 (Inr [])) (Response 200 (Inr [])),
                    writable = True\<rparr>)
       = [Banner, Fetching, Fetched 0, Analyzing, NoCoins]
   \<and> written (main \<lparr>http = first_then (Response 200 (Inr [])) (Response 200 (Inr [])),
                    writable = True\<rparr>) = None
   \<and> status (main \<lparr>http = first_then (Response 200 (Inr [])) (Response 200 (Inr [])),
                   writable = True\<rparr>) = Returned"
proof -
  let ?w = "\<lparr>http = first_then (Response 200 (Inr [])) (Response 200 (Inr [])), writable = True\<rparr>"
  have f: "fst (fetch_catalog (http ?w) 0) = ([Fetching, Fetched 0], Inr [])"
    by (simp add: fetch_catalog_def requests_get_def first_then_def)
  have a: "analyze [] = ([], [])"
    by (simp add: analyze_def)
  from a have a2: "fst (analyze []) = []" by simp
  from no_coins_no_document [OF f a2] a show ?thesis by simp
qed

section \<open>Properties of the extraction\<close>



text \<open>
  Claim C3. \<open>extract_coins\<close> returns the empty result when the text is absent or
  empty, and its result never holds a symbol twice. For a non-empty text its result, as
  a set, is the union of the symbols of the aliases that occur as whole words in the
  lowercased text without tags, and of the whole-word runs of 2 to 8 capital ASCII
  letters of the text without tags, in its original case, that are keys of the coin
  table. Taking the tags out leaves a text without \<open><\<close> as it is, and replaces the
  first tag, a \<open><\<close>, at least one character other than \<open>>\<close>, and a \<open>>\<close>, by one
  space and goes on behind it.
\<close>

theorem extract_coins_is_union:
  "extract_coins None = []
   \<and> extract_coins (Some []) = []
   \<and> distinct (extract_coins x)
   \<and> (text \<noteq> [] \<longrightarrow>
        set (extract_coins (Some text)) =
          {symbol. \<exists>alias. (alias, symbol) \<in> set ALIASES
                     \<and> occurs_as_word None alias (lower (sub_tags text))}
          \<union> {w. symbol_run w \<and> occurs_as_word None w (sub_tags text) \<and> w \<in> fst ` set COINS})
   \<and> (CHR ''<'' \<notin> set s \<longrightarrow> sub_tags s = s)
   \<and> (CHR ''<'' \<notin> set pre \<and> body \<noteq> [] \<and> CHR ''>'' \<notin> set body \<longrightarrow>
        sub_tags (pre @ CHR ''<'' # body @ CHR ''>'' # rest) = pre @ CHR '' '' # sub_tags rest)"
proof (intro conjI impI)
  show "extract_coins None = []" by (simp add: extract_coins_def)
  show "extract_coins (Some []) = []" by (simp add: extract_coins_def)
  show "distinct (extract_coins x)" by (rule distinct_extract_coins)
  show "sub_tags s = s" if "CHR ''<'' \<notin> set s" using that by (rule sub_tags_no_tag)
  show "sub_tags (pre @ CHR ''<'' # body @ CHR ''>'' # rest) = pre @ CHR '' '' # sub_tags rest"
    if "CHR ''<'' \<notin> set pre \<and> body \<noteq> [] \<and> CHR ''>'' \<notin> set body"
    using that by (intro sub_tags_first_tag) simp_all
  show "set (extract_coins (Some text)) =
          {symbol. \<exists>alias. (alias, symbol) \<in> set ALIASES
                     \<and> occurs_as_word None alias (lower (sub_tags text))}
          \<union> {w. symbol_run w \<and> occurs_as_word None w (sub_tags text) \<and> w \<in> fst ` set COINS}"
    if ne: "text \<noteq> []"
  proof -
    have a: "{symbol. \<exists>alias. (alias, symbol) \<in> set ALIASES
                 \<and> search_alias None alias (lower (sub_tags text))}
           = {symbol. \<exists>alias. (alias, symbol) \<in> set ALIASES
                 \<and> occurs_as_word None alias (lower (sub_tags text))}"
      using alias_search_iff by blast
    have b: "{w \<in> set (findall_symbols None (sub_tags text)). w \<in> set (map fst COINS)}
           = {w. symbol_run w \<and> occurs_as_word None w (sub_tags text) \<and> w \<in> fst ` set COINS}"
      unfolding set_findall_symbols by auto
    show ?thesis
      unfolding set_extract_coins [OF ne] a b ..
  qed
qed

theorem extract_coins_is_union_witness:
  "''<b>Ether</b> and SOL, not XYZABC'' \<noteq> []
   \<and> {symbol. \<exists>alias. (alias, symbol) \<in> set ALIASES
         \<and> occurs_as_word None alias (lower (sub_tags ''<b>Ether</b> and SOL, not XYZABC''))}
     \<union> {w. symbol_run w \<and> occurs_as_word None w (sub_tags ''<b>Ether</b> and SOL, not XYZABC'')
            \<and> w \<in> fst ` set COINS}
     = {''ETH'', ''SOL''}
   \<and> sub_tags ''<b>Ether</b> and SOL, not XYZABC'' = '' Ether  and SOL, not XYZABC''
   \<and> sub_tags ''to the moon'' = ''to the moon''
   \<and> sub_tags ''a<br>c'' = ''a c''"
proof -
  have ne: "''<b>Ether</b> and SOL, not XYZABC'' \<noteq> []" by simp
  have v: "extract_coins (Some ''<b>Ether</b> and SOL, not XYZABC'') = [''ETH'', ''SOL'']"
    by code_simp
  have t: "sub_tags ''<b>Ether</b> and SOL, not XYZABC'' = '' Ether  and SOL, not XYZABC''"
    by code_simp
  from extract_coins_is_union [of _ "''<b>Ether</b> and SOL, not XYZABC''"] ne
  have "set (extract_coins (Some ''<b>Ether</b> and SOL, not XYZABC'')) =
      {symbol. \<exists>alias. (alias, symbol) \<in> set ALIASES
         \<and> occurs_as_word None alias (lower (sub_tags ''<b>Ether</b> and SOL, not XYZABC''))}
     \<union> {w. symbol_run w \<and> occurs_as_word None w (sub_tags ''<b>Ether</b> and SOL, not XYZABC'')
            \<and> w \<in> fst ` set COINS}"
    by blast
  with v have "{symbol. \<exists>alias. (alias, symbol) \<in> set ALIASES
         \<and> occurs_as_word None alias (lower (sub_tags ''<b>Ether</b> and SOL, not XYZABC''))}
     \<union> {w. symbol_run w \<and> occurs_as_word None w (sub_tags ''<b>Ether</b> and SOL, not XYZABC'')
            \<and> w \<in> fst ` set COINS}
     = {''ETH'', ''SOL''}"
    by simp
  moreover from extract_coins_is_union [of _ _ "''to the moon''"]
  have "sub_tags ''to the moon'' = ''to the moon''"
    by simp
  moreover from extract_coins_is_union [of _ _ _ "''a''" "''br''" "''c''"]
  have "sub_tags ''a<br>c'' = ''a c''"
    by simp
  ultimately show ?thesis using ne t by (intro conjI)
qed

end
